theory Spec2Isabelle
  imports Complex_Main "HOL-Library.AList"
begin

section \<open>JavaScript values\<close>

text \<open>
  A JavaScript string is a sequence of UTF-16 code units; the regular expressions of
  the module have no \<^verbatim>\<open>u\<close> flag and \<^verbatim>\<open>includes\<close>, \<^verbatim>\<open>trim\<close> and \<^verbatim>\<open>padStart\<close> work on
  code units, so a string is the list of its code units. Binary data (a \<^verbatim>\<open>Buffer\<close>, the
  contents of a file) is a list of bytes.
\<close>

type_synonym jsstring = "nat list"

type_synonym bytes = "char list"

definition js :: "string \<Rightarrow> jsstring" where
  "js s = map of_char s"

text \<open>
  The values the module handles with the type \<^verbatim>\<open>any\<close>. Numbers are the integers: the
  sections of a bundle and the result codes are integers, and no claim depends on a
  fractional number.
\<close>

datatype jsval =
    JUndefined
  | JNull
  | JNum int
  | JStr jsstring
  | JBuf bytes
  | JArr "jsval list"

text \<open>\<^verbatim>\<open>typeof v === 'number'\<close>\<close>

fun isNumber :: "jsval \<Rightarrow> bool" where
  "isNumber (JNum n) = True"
| "isNumber v = False"

subsection \<open>String methods\<close>

text \<open>\<^verbatim>\<open>Number.prototype.toString\<close> on a non-negative integer (a loop index).\<close>

function toString :: "nat \<Rightarrow> jsstring" where
  "toString n = (if n < 10 then [48 + n] else toString (n div 10) @ [48 + n mod 10])"
  by pat_completeness auto
termination
  by (relation "measure id") auto

declare toString.simps [simp del]

definition padStart :: "nat \<Rightarrow> nat \<Rightarrow> jsstring \<Rightarrow> jsstring" where
  "padStart targetLength c s = replicate (targetLength - length s) c @ s"

text \<open>The WhiteSpace and LineTerminator code units: what \<^verbatim>\<open>trim\<close> strips and \<^verbatim>\<open>\s\<close> matches.\<close>

definition isWhiteSpace :: "nat \<Rightarrow> bool" where
  "isWhiteSpace c =
     (c = 9 \<or> c = 10 \<or> c = 11 \<or> c = 12 \<or> c = 13 \<or> c = 32 \<or> c = 160 \<or> c = 5760 \<or>
      (8192 \<le> c \<and> c \<le> 8202) \<or> c = 8232 \<or> c = 8233 \<or> c = 8239 \<or> c = 8287 \<or>
      c = 12288 \<or> c = 65279)"

definition trim :: "jsstring \<Rightarrow> jsstring" where
  "trim s = rev (dropWhile isWhiteSpace (rev (dropWhile isWhiteSpace s)))"

definition startsWith :: "jsstring \<Rightarrow> jsstring \<Rightarrow> bool" where
  "startsWith s t = (take (length t) s = t)"

definition endsWith :: "jsstring \<Rightarrow> jsstring \<Rightarrow> bool" where
  "endsWith s t = (length t \<le> length s \<and> drop (length s - length t) s = t)"

fun str_includes :: "jsstring \<Rightarrow> jsstring \<Rightarrow> bool" where
  "str_includes [] t = (t = [])"
| "str_includes (x # xs) t = (startsWith (x # xs) t \<or> str_includes xs t)"

subsection \<open>Regular expressions\<close>

text \<open>
  The fragment of JavaScript's backtracking matcher that the module's expressions use:
  a class of code units, sequence, a greedy optional group, the greedy and the lazy star
  of a class, one capture group and the end anchor. \<open>matches r s c\<close> lists, in the order
  the backtracking matcher tries them, every way \<open>r\<close> matches a prefix of \<open>s\<close>: the rest
  of the input and the capture. The matcher takes the first one that lets the rest of
  the pattern succeed.
\<close>

datatype re =
    Chr "nat \<Rightarrow> bool"
  | SeqR re re
  | Opt re
  | Star "nat \<Rightarrow> bool"
  | LazyStar "nat \<Rightarrow> bool"
  | Cap re
  | Eol

fun matches :: "re \<Rightarrow> jsstring \<Rightarrow> jsstring option \<Rightarrow> (jsstring \<times> jsstring option) list" where
  "matches (Chr p) s c = (case s of [] \<Rightarrow> [] | x # xs \<Rightarrow> if p x then [(xs, c)] else [])"
| "matches (SeqR a b) s c = concat (map (\<lambda>r. matches b (fst r) (snd r)) (matches a s c))"
| "matches (Opt a) s c = matches a s c @ [(s, c)]"
| "matches (Star p) s c =
     (case s of [] \<Rightarrow> [(s, c)]
      | x # xs \<Rightarrow> if p x then matches (Star p) xs c @ [(s, c)] else [(s, c)])"
| "matches (LazyStar p) s c =
     (s, c) # (case s of [] \<Rightarrow> [] | x # xs \<Rightarrow> if p x then matches (LazyStar p) xs c else [])"
| "matches (Cap a) s c =
     map (\<lambda>r. (fst r, Some (take (length s - length (fst r)) s))) (matches a s c)"
| "matches Eol s c = (if s = [] then [(s, c)] else [])"

text \<open>
  \<^verbatim>\<open>String.prototype.match\<close> with a non-global expression: the leftmost start position
  with a match, and there the first match in backtracking order. The result is the
  capture of group 1, or \<open>None\<close> when the expression matches nowhere (\<^verbatim>\<open>null\<close>).
\<close>

fun regexp_match :: "re \<Rightarrow> jsstring \<Rightarrow> jsstring option option" where
  "regexp_match r s =
     (case matches r s None of
        m # _ \<Rightarrow> Some (snd m)
      | [] \<Rightarrow> (case s of [] \<Rightarrow> None | x # xs \<Rightarrow> regexp_match r xs))"

definition isDigit :: "nat \<Rightarrow> bool" where
  "isDigit c = (48 \<le> c \<and> c \<le> 57)"

text \<open>\<^verbatim>\<open>.\<close> matches every code unit but the line terminators.\<close>

definition isDot :: "nat \<Rightarrow> bool" where
  "isDot c = (c \<noteq> 10 \<and> c \<noteq> 13 \<and> c \<noteq> 8232 \<and> c \<noteq> 8233)"

subsection \<open>Doubles\<close>

text \<open>
  \<^verbatim>\<open>Math.random()\<close> returns a double and \<^verbatim>\<open>Math.random() * SECTION_MAX_VAL\<close> is the product
  of two doubles: the exact product rounded to the nearest double, a tie going to the
  even mantissa. A finite double that is not negative is kept as the pair \<open>(m, e)\<close> of
  its value \<open>m / 2 ^ e\<close>.
\<close>

type_synonym double = "nat \<times> nat"

text \<open>The number of binary digits of a natural number.\<close>

function bitLength :: "nat \<Rightarrow> nat" where
  "bitLength n = (if n = 0 then 0 else Suc (bitLength (n div 2)))"
  by pat_completeness auto
termination
  by (relation "measure id") auto

declare bitLength.simps [simp del]

text \<open>
  The double nearest to \<open>n / 2 ^ e\<close>, below the overflow threshold. A double has 53
  significant bits and is a multiple of \<open>2 ^ -1074\<close>, so the last \<open>s\<close> bits of \<open>n\<close> are
  rounded away: \<open>q\<close> is what is kept, \<open>r\<close> what is dropped, and \<open>q\<close> goes up when \<open>r\<close> is
  more than the half, or is the half and \<open>q\<close> is odd.
\<close>

definition roundDouble :: "nat \<Rightarrow> nat \<Rightarrow> double" where
  "roundDouble n e =
     (let s = max (bitLength n - 53) (e - 1074);
          q = n div 2 ^ s;
          r = n mod 2 ^ s;
          q' = (if 2 ^ s < 2 * r \<or> (2 * r = 2 ^ s \<and> odd q) then q + 1 else q)
      in if s \<le> e then (q', e - s) else (q' * 2 ^ (s - e), 0))"

text \<open>The product \<^verbatim>\<open>x * y\<close> of two doubles.\<close>

definition mulDouble :: "double \<Rightarrow> double \<Rightarrow> double" where
  "mulDouble x y = roundDouble (fst x * fst y) (snd x + snd y)"

text \<open>\<^verbatim>\<open>Math.floor\<close> of a double, as an integer.\<close>

definition Math_floor :: "double \<Rightarrow> int" where
  "Math_floor x = int (fst x div 2 ^ snd x)"

text \<open>The double of an integer from \<open>0\<close> to \<open>2 ^ 53\<close>, which is exact.\<close>

definition fromInt :: "int \<Rightarrow> double" where
  "fromInt i = (nat i, 0)"

text \<open>
  The doubles from \<open>0\<close> up to, and without, \<open>1\<close>: each has at most 53 significant bits
  and is a multiple of \<open>2 ^ -1074\<close>, so it is \<open>m / 2 ^ e\<close> with \<open>m\<close> below \<open>2 ^ 53\<close> and \<open>e\<close>
  from 53 to 1074; and every such pair is one of them.
\<close>

definition isUnitDouble :: "double \<Rightarrow> bool" where
  "isUnitDouble x = (fst x < 2 ^ 53 \<and> 53 \<le> snd x \<and> snd x \<le> 1074)"

section \<open>Constants of the module\<close>

definition SCRIPTS_NOT_EXTRACTED :: nat where
  "SCRIPTS_NOT_EXTRACTED = 100"

definition SCRIPTS_EXTRACTED :: nat where
  "SCRIPTS_EXTRACTED = 200"

definition LOADER_BUNDLE_CREATED :: nat where
  "LOADER_BUNDLE_CREATED = 300"

definition BUNDLE_CREATED :: nat where
  "BUNDLE_CREATED = 400"

definition LOADER_SCRIPT_SECTION :: int where
  "LOADER_SCRIPT_SECTION = 133769420"

definition LOADER_SCRIPT_NAME :: jsstring where
  "LOADER_SCRIPT_NAME = js ''RGSS Script Editor Loader''"

definition LOAD_ORDER_FILE_NAME :: jsstring where
  "LOAD_ORDER_FILE_NAME = js ''load_order.txt''"

text \<open>
  \<^verbatim>\<open>/[\\/:\*\?"<>\|...]/g\<close>: the class of the expression, whose last two members are the
  code units U+25BC and U+25A0.
\<close>

definition INVALID_CHARACTERS :: "nat \<Rightarrow> bool" where
  "INVALID_CHARACTERS c =
     (c = 92 \<or> c = 47 \<or> c = 58 \<or> c = 42 \<or> c = 63 \<or> c = 34 \<or> c = 60 \<or> c = 62 \<or>
      c = 124 \<or> c = 9660 \<or> c = 9632)"

text \<open>
  \<^verbatim>\<open>/(?:\d+\s*-.*?)?(.*?)\.rb$/i\<close>. Under the \<^verbatim>\<open>i\<close> flag the letters match in both cases;
  \<^verbatim>\<open>\d+\<close> is one digit and the greedy star of the digits.
\<close>

definition DEFORMAT_SCRIPT_NAME :: re where
  "DEFORMAT_SCRIPT_NAME =
     SeqR (Opt (SeqR (Chr isDigit) (SeqR (Star isDigit) (SeqR (Star isWhiteSpace)
            (SeqR (Chr (\<lambda>c. c = 45)) (LazyStar isDot))))))
       (SeqR (Cap (LazyStar isDot))
         (SeqR (Chr (\<lambda>c. c = 46))
           (SeqR (Chr (\<lambda>c. c = 114 \<or> c = 82))
             (SeqR (Chr (\<lambda>c. c = 98 \<or> c = 66)) Eol))))"

definition SECTION_MAX_VAL :: int where
  "SECTION_MAX_VAL = 133769420"

section \<open>Names, sections and code of a script\<close>

text \<open>
  Paths are kept as the list of their components. The module \<^verbatim>\<open>utils/path_resolve\<close> is
  not among the sources: \<open>join\<close> appends one component (every file name the module joins
  is free of separators) and \<open>basename\<close> is the last component.
\<close>

type_synonym path = "jsstring list"

definition join :: "path \<Rightarrow> jsstring \<Rightarrow> path" where
  "join base name = base @ [name]"

definition basename :: "path \<Rightarrow> jsstring" where
  "basename p = (if p = [] then [] else last p)"

definition isLoaderScript :: "jsval \<Rightarrow> bool" where
  "isLoaderScript scriptSection = (scriptSection = JNum LOADER_SCRIPT_SECTION)"

definition formatScriptName :: "jsstring \<Rightarrow> nat \<Rightarrow> jsstring" where
  "formatScriptName scriptName scriptIndex =
     (let index = toString scriptIndex;
          name = filter (\<lambda>c. \<not> INVALID_CHARACTERS c) scriptName;
          name = trim name;
          name = padStart 4 48 index @ js '' - '' @ name
      in if \<not> str_includes name (js ''.rb'') then name @ js ''.rb'' else name)"

definition deformatScriptName :: "path \<Rightarrow> jsstring" where
  "deformatScriptName script =
     (let baseName = basename script
      in case regexp_match DEFORMAT_SCRIPT_NAME baseName of
           Some (Some m) \<Rightarrow> m
         | Some None \<Rightarrow> baseName
         | None \<Rightarrow> baseName)"

definition processScriptCode :: "jsstring \<Rightarrow> jsstring" where
  "processScriptCode scriptCode =
     (if \<not> str_includes scriptCode (js ''# encoding: utf-8'')
      then js ''# encoding: utf-8'' @ [10] @ scriptCode
      else scriptCode)"

text \<open>
  \<^verbatim>\<open>Math.random()\<close> is a source of doubles: \<open>random k\<close> is the \<open>k\<close>-th sample the run
  draws, and the loop returns the section with the number of samples drawn so far. The
  loop has no bound; a run that never draws a fresh section is \<open>None\<close>.
\<close>

partial_function (option) generateScriptSection ::
  "(nat \<Rightarrow> double) \<Rightarrow> nat \<Rightarrow> int list \<Rightarrow> (int \<times> nat) option" where
  "generateScriptSection random k sections =
     (let section = Math_floor (mulDouble (random k) (fromInt SECTION_MAX_VAL))
      in if section \<in> set sections then generateScriptSection random (Suc k) sections
         else Some (section, Suc k))"

section \<open>The file system\<close>

text \<open>
  The file system is a tree: a file holds bytes, a directory holds its entries in the
  order \<^verbatim>\<open>readdirSync\<close> lists them. A world is the tree and the trace of the mutating
  \<^verbatim>\<open>fs\<close> calls made so far, each with its outcome, so that what was written and in which
  order can be stated.
\<close>

datatype node = File bytes | Dir "(jsstring \<times> node) list"

datatype errno = ENOENT | ENOTDIR | EISDIR | EEXIST

datatype event =
    Mkdir path bool
  | CopyFile path path bool
  | WriteFile path bool

record world =
  tree :: node
  trace :: "event list"

text \<open>
  What the module throws: the two \<^verbatim>\<open>Error\<close>s it raises itself (a missing file to back up,
  a missing scripts folder), a failing \<^verbatim>\<open>fs\<close> call, and what the decoder's calls raise.
\<close>

datatype error =
    FileDoesNotExist path
  | ScriptFolderDoesNotExist path
  | SystemError errno path
  | TypeError
  | MarshalError
  | ZlibError

type_synonym 'a result = "(error + 'a) \<times> world"

fun lookup :: "node \<Rightarrow> path \<Rightarrow> node option" where
  "lookup n [] = Some n"
| "lookup (File b) (c # cs) = None"
| "lookup (Dir es) (c # cs) = (case map_of es c of None \<Rightarrow> None | Some n \<Rightarrow> lookup n cs)"

text \<open>A file is written where its parent directory exists and no directory has its name.\<close>

fun put :: "node \<Rightarrow> path \<Rightarrow> bytes \<Rightarrow> errno + node" where
  "put (File old) [] b = Inr (File b)"
| "put (Dir es) [] b = Inl EISDIR"
| "put (File old) (c # cs) b = Inl ENOTDIR"
| "put (Dir es) (c # cs) b =
     (case map_of es c of
        None \<Rightarrow> if cs = [] then Inr (Dir (es @ [(c, File b)])) else Inl ENOENT
      | Some n \<Rightarrow>
          (case put n cs b of Inl e \<Rightarrow> Inl e | Inr n' \<Rightarrow> Inr (Dir (AList.update c n' es))))"

text \<open>\<^verbatim>\<open>mkdir\<close> with \<^verbatim>\<open>recursive: true\<close>: the missing directories of the path are created.\<close>

fun mkdirp :: "node \<Rightarrow> path \<Rightarrow> errno + node" where
  "mkdirp (Dir es) [] = Inr (Dir es)"
| "mkdirp (File b) [] = Inl EEXIST"
| "mkdirp (File b) (c # cs) = Inl ENOTDIR"
| "mkdirp (Dir es) (c # cs) =
     (case map_of es c of
        None \<Rightarrow>
          (case mkdirp (Dir []) cs of Inl e \<Rightarrow> Inl e | Inr n' \<Rightarrow> Inr (Dir (es @ [(c, n')])))
      | Some n \<Rightarrow>
          (case mkdirp n cs of Inl e \<Rightarrow> Inl e | Inr n' \<Rightarrow> Inr (Dir (AList.update c n' es))))"

definition existsSync :: "world \<Rightarrow> path \<Rightarrow> bool" where
  "existsSync w p = (lookup (tree w) p \<noteq> None)"

definition isFile :: "world \<Rightarrow> path \<Rightarrow> bool" where
  "isFile w p = (case lookup (tree w) p of Some (File b) \<Rightarrow> True | _ \<Rightarrow> False)"

definition isDirectory :: "world \<Rightarrow> path \<Rightarrow> bool" where
  "isDirectory w p = (case lookup (tree w) p of Some (Dir es) \<Rightarrow> True | _ \<Rightarrow> False)"

definition readFileSync :: "world \<Rightarrow> path \<Rightarrow> error + bytes" where
  "readFileSync w p =
     (case lookup (tree w) p of
        None \<Rightarrow> Inl (SystemError ENOENT p)
      | Some (Dir es) \<Rightarrow> Inl (SystemError EISDIR p)
      | Some (File b) \<Rightarrow> Inr b)"

definition writeFileSync :: "world \<Rightarrow> path \<Rightarrow> bytes \<Rightarrow> unit result" where
  "writeFileSync w p b =
     (case put (tree w) p b of
        Inl e \<Rightarrow> (Inl (SystemError e p), w\<lparr>trace := trace w @ [WriteFile p False]\<rparr>)
      | Inr t \<Rightarrow> (Inr (), \<lparr>tree = t, trace = trace w @ [WriteFile p True]\<rparr>))"

definition mkdirSync :: "world \<Rightarrow> path \<Rightarrow> unit result" where
  "mkdirSync w p =
     (case mkdirp (tree w) p of
        Inl e \<Rightarrow> (Inl (SystemError e p), w\<lparr>trace := trace w @ [Mkdir p False]\<rparr>)
      | Inr t \<Rightarrow> (Inr (), \<lparr>tree = t, trace = trace w @ [Mkdir p True]\<rparr>))"

text \<open>\<^verbatim>\<open>copyFileSync\<close> without a mode: an existing destination file is overwritten.\<close>

definition copyFileSync :: "world \<Rightarrow> path \<Rightarrow> path \<Rightarrow> unit result" where
  "copyFileSync w src dst =
     (case lookup (tree w) src of
        None \<Rightarrow> (Inl (SystemError ENOENT src), w\<lparr>trace := trace w @ [CopyFile src dst False]\<rparr>)
      | Some (Dir es) \<Rightarrow>
          (Inl (SystemError EISDIR src), w\<lparr>trace := trace w @ [CopyFile src dst False]\<rparr>)
      | Some (File b) \<Rightarrow>
          (case put (tree w) dst b of
             Inl e \<Rightarrow> (Inl (SystemError e dst), w\<lparr>trace := trace w @ [CopyFile src dst False]\<rparr>)
           | Inr t \<Rightarrow> (Inr (), \<lparr>tree = t, trace = trace w @ [CopyFile src dst True]\<rparr>)))"

subsection \<open>Listing a directory\<close>

text \<open>
  \<^verbatim>\<open>readDir\<close>: every entry of the directory, each followed by the entries below it when it
  is a directory and the listing is recursive.
\<close>

function readDirEntries :: "path \<Rightarrow> (jsstring \<times> node) list \<Rightarrow> bool \<Rightarrow> path list" where
  "readDirEntries base [] recursive = []"
| "readDirEntries base (e # es) recursive =
     (let fullPath = join base (fst e)
      in fullPath #
         (case snd e of
            Dir sub \<Rightarrow> if recursive then readDirEntries fullPath sub recursive else []
          | File b \<Rightarrow> [])
         @ readDirEntries base es recursive)"
  by pat_completeness auto
termination
  by (relation "measure (\<lambda>(base, es, recursive). size (Dir es))") auto

definition readDir :: "world \<Rightarrow> path \<Rightarrow> bool \<Rightarrow> error + path list" where
  "readDir w base recursive =
     (case lookup (tree w) base of
        None \<Rightarrow> Inl (SystemError ENOENT base)
      | Some (File b) \<Rightarrow> Inl (SystemError ENOTDIR base)
      | Some (Dir es) \<Rightarrow> Inr (readDirEntries base es recursive))"

text \<open>
  \<^verbatim>\<open>readDirectory\<close> with absolute entries (the \<^verbatim>\<open>relative\<close> option is not used by the
  bundle builder) and a filter callback.
\<close>

definition readDirectory ::
  "world \<Rightarrow> path \<Rightarrow> bool \<Rightarrow> (path list \<Rightarrow> path list) \<Rightarrow> error + path list" where
  "readDirectory w base recursive filter_cb =
     (case readDir w base recursive of
        Inl e \<Rightarrow> Inl e
      | Inr entries \<Rightarrow> Inr (filter_cb entries))"

text \<open>
  \<^verbatim>\<open>extname\<close> of a file name, as Node's \<^verbatim>\<open>path.extname\<close> gives it: from the last dot on,
  and empty when there is no dot or the only dot is the first character.
  \<^verbatim>\<open>toLowerCase\<close> is written for the letters A to Z; no other code unit lowers to one of
  the characters of \<^verbatim>\<open>.rb\<close>.
\<close>

fun extnameFrom :: "jsstring \<Rightarrow> jsstring" where
  "extnameFrom [] = []"
| "extnameFrom (c # cs) =
     (if c = 46 \<and> 46 \<notin> set cs then c # cs else extnameFrom cs)"

definition extname :: "path \<Rightarrow> jsstring" where
  "extname p =
     (let b = basename p
      in if b = [] \<or> b = [46, 46] \<or> 46 \<notin> set (tl b) then [] else extnameFrom (tl b))"

definition toLowerCase :: "jsstring \<Rightarrow> jsstring" where
  "toLowerCase s = map (\<lambda>c. if 65 \<le> c \<and> c \<le> 90 then c + 32 else c) s"

definition isRubyScript :: "world \<Rightarrow> path \<Rightarrow> bool" where
  "isRubyScript w file =
     (if \<not> existsSync w file then False
      else if \<not> isFile w file then False
      else if \<not> (toLowerCase (extname file) = js ''.rb'') then False
      else True)"

section \<open>The libraries\<close>

text \<open>
  The Marshal and zlib codecs, the UTF-8 conversions of \<^verbatim>\<open>Buffer\<close> and \<^verbatim>\<open>TextDecoder\<close>,
  \<^verbatim>\<open>resolveRPG\<close> of the path module, the clock and \<^verbatim>\<open>Math.random\<close> are not code of the
  module: they are the fields of an environment. \<open>marshal_load\<close> is \<^verbatim>\<open>marshal.load\<close>
  with \<^verbatim>\<open>string: 'binary'\<close>; a codec that throws gives \<open>None\<close>. The Ruby text of the loader
  script is data of the module: \<open>loaderText\<close> holds the four fixed pieces of its template
  literal, between which the loader's name, the scripts folder and the name of the load
  order file are inserted.
\<close>

record date =
  getFullYear :: nat
  getMonth :: nat
  getDate :: nat
  getHours :: nat
  getMinutes :: nat
  getSeconds :: nat

record env =
  marshal_dump :: "jsval \<Rightarrow> bytes"
  marshal_load :: "bytes \<Rightarrow> jsval option"
  deflateSync :: "bytes \<Rightarrow> bytes"
  inflateSync :: "bytes \<Rightarrow> bytes option"
  utf8_encode :: "jsstring \<Rightarrow> bytes"
  utf8_decode :: "bytes \<Rightarrow> jsstring"
  textDecoder_decode :: "bytes \<Rightarrow> jsstring"
  resolveRPG :: "jsstring \<Rightarrow> jsstring"
  now :: date
  random :: "nat \<Rightarrow> double"
  loaderText :: "jsstring \<times> jsstring \<times> jsstring \<times> jsstring"

subsection \<open>UTF-8\<close>

text \<open>
  The UTF-8 conversions as the platform has them, for the environments whose
  conversions they are. \<open>utf8Encode\<close> is the encoding of a string by \<^verbatim>\<open>Buffer.from\<close>, which
  is also what \<^verbatim>\<open>deflateSync\<close> and \<^verbatim>\<open>marshal.dump\<close> do with a string: a pair of surrogates is
  one code point of four bytes, and a surrogate without its partner is encoded as
  U+FFFD. The bytes are numbers first, then characters.
\<close>

definition isHigh :: "nat \<Rightarrow> bool" where
  "isHigh c = (55296 \<le> c \<and> c \<le> 56319)"

definition isLow :: "nat \<Rightarrow> bool" where
  "isLow c = (56320 \<le> c \<and> c \<le> 57343)"

definition encodeCodePoint :: "nat \<Rightarrow> nat list" where
  "encodeCodePoint cp =
     (if cp < 128 then [cp]
      else if cp < 2048 then [192 + cp div 64, 128 + cp mod 64]
      else if cp < 65536 then [224 + cp div 4096, 128 + cp div 64 mod 64, 128 + cp mod 64]
      else [240 + cp div 262144, 128 + cp div 4096 mod 64, 128 + cp div 64 mod 64,
            128 + cp mod 64])"

fun encodeUnits :: "jsstring \<Rightarrow> nat list" where
  "encodeUnits [] = []"
| "encodeUnits [c] = encodeCodePoint (if isHigh c \<or> isLow c then 65533 else c)"
| "encodeUnits (c # d # cs) =
     (if isHigh c \<and> isLow d
      then encodeCodePoint (65536 + (c - 55296) * 1024 + (d - 56320)) @ encodeUnits cs
      else encodeCodePoint (if isHigh c \<or> isLow c then 65533 else c) @ encodeUnits (d # cs))"

definition utf8Encode :: "jsstring \<Rightarrow> bytes" where
  "utf8Encode s = map char_of (encodeUnits s)"

text \<open>
  \<open>utf8Decode\<close> is \<^verbatim>\<open>Buffer.toString\<close> with \<^verbatim>\<open>utf8\<close>: U+FFFD stands for every byte, or
  beginning of a sequence, that is not UTF-8, and the decoding goes on with the byte
  that broke the sequence.
\<close>

definition isCont :: "nat \<Rightarrow> bool" where
  "isCont b = (128 \<le> b \<and> b \<le> 191)"

definition surrogates :: "nat \<Rightarrow> jsstring" where
  "surrogates cp = [55296 + (cp - 65536) div 1024, 56320 + (cp - 65536) mod 1024]"

fun decodeBytes :: "nat list \<Rightarrow> jsstring" where
  "decodeBytes [] = []"
| "decodeBytes (b # bs) =
     (if b < 128 then b # decodeBytes bs
      else if 194 \<le> b \<and> b \<le> 223 then
        (case bs of
           [] \<Rightarrow> [65533]
         | b1 # r1 \<Rightarrow>
             if isCont b1 then ((b - 192) * 64 + (b1 - 128)) # decodeBytes r1
             else 65533 # decodeBytes bs)
      else if 224 \<le> b \<and> b \<le> 239 then
        (case bs of
           [] \<Rightarrow> [65533]
         | b1 # r1 \<Rightarrow>
             if (if b = 224 then 160 else 128) \<le> b1 \<and> b1 \<le> (if b = 237 then 159 else 191) then
               (case r1 of
                  [] \<Rightarrow> [65533]
                | b2 # r2 \<Rightarrow>
                    if isCont b2
                    then ((b - 224) * 4096 + (b1 - 128) * 64 + (b2 - 128)) # decodeBytes r2
                    else 65533 # decodeBytes r1)
             else 65533 # decodeBytes bs)
      else if 240 \<le> b \<and> b \<le> 244 then
        (case bs of
           [] \<Rightarrow> [65533]
         | b1 # r1 \<Rightarrow>
             if (if b = 240 then 144 else 128) \<le> b1 \<and> b1 \<le> (if b = 244 then 143 else 191) then
               (case r1 of
                  [] \<Rightarrow> [65533]
                | b2 # r2 \<Rightarrow>
                    if isCont b2 then
                      (case r2 of
                         [] \<Rightarrow> [65533]
                       | b3 # r3 \<Rightarrow>
                           if isCont b3
                           then surrogates ((b - 240) * 262144 + (b1 - 128) * 4096 +
                                            (b2 - 128) * 64 + (b3 - 128)) @ decodeBytes r3
                           else 65533 # decodeBytes r2)
                    else 65533 # decodeBytes r1)
             else 65533 # decodeBytes bs)
      else 65533 # decodeBytes bs)"

declare decodeBytes.simps(2) [simp del]

definition utf8Decode :: "bytes \<Rightarrow> jsstring" where
  "utf8Decode b = decodeBytes (map of_char b)"

text \<open>
  \<^verbatim>\<open>TextDecoder.decode\<close> decodes the same way and then drops a byte order mark U+FEFF at
  the beginning.
\<close>

definition textDecode :: "bytes \<Rightarrow> jsstring" where
  "textDecode b =
     (case utf8Decode b of
        [] \<Rightarrow> []
      | c # cs \<Rightarrow> if c = 65279 then cs else c # cs)"

text \<open>
  The strings with every code unit below \<open>2 ^ 16\<close> and every surrogate in a pair.
\<close>

fun wellFormed :: "jsstring \<Rightarrow> bool" where
  "wellFormed [] = True"
| "wellFormed [c] = (c < 65536 \<and> \<not> isHigh c \<and> \<not> isLow c)"
| "wellFormed (c # d # cs) =
     (if isHigh c then isLow d \<and> wellFormed cs
      else c < 65536 \<and> \<not> isLow c \<and> wellFormed (d # cs))"

section \<open>Reading a bundle\<close>

text \<open>
  One decoded script: \<^verbatim>\<open>[section, name, code]\<close>. The section is whatever the Marshal
  data held; name and code are strings.
\<close>

type_synonym script = "jsval \<times> jsstring \<times> jsstring"

text \<open>
  The body of the loop of \<^verbatim>\<open>readBundleFile\<close> for one element. \<^verbatim>\<open>TextDecoder.decode\<close> and
  \<^verbatim>\<open>inflateSync\<close> throw a \<^verbatim>\<open>TypeError\<close> on what is not binary data (a missing name decodes
  to the empty string), and every element that is not an array of three or more
  elements ends in one of these.
\<close>

definition decodeScript :: "env \<Rightarrow> jsval \<Rightarrow> error + script" where
  "decodeScript env v =
     (case v of
        JArr (section # name # code # rest) \<Rightarrow>
          (case (case name of
                   JBuf nb \<Rightarrow> Inr (textDecoder_decode env nb)
                 | JUndefined \<Rightarrow> Inr []
                 | _ \<Rightarrow> Inl TypeError) of
             Inl e \<Rightarrow> Inl e
           | Inr decoded \<Rightarrow>
               (case (case code of
                        JBuf cb \<Rightarrow> Some cb
                      | JStr cs \<Rightarrow> Some (utf8_encode env cs)
                      | _ \<Rightarrow> None) of
                  None \<Rightarrow> Inl TypeError
                | Some cb \<Rightarrow>
                    (case inflateSync env cb of
                       None \<Rightarrow> Inl ZlibError
                     | Some inflated \<Rightarrow> Inr (section, decoded, utf8_decode env inflated))))
      | _ \<Rightarrow> Inl TypeError)"

fun decodeScripts :: "env \<Rightarrow> jsval list \<Rightarrow> error + script list" where
  "decodeScripts env [] = Inr []"
| "decodeScripts env (v # vs) =
     (case decodeScript env v of
        Inl e \<Rightarrow> Inl e
      | Inr x \<Rightarrow> (case decodeScripts env vs of Inl e \<Rightarrow> Inl e | Inr xs \<Rightarrow> Inr (x # xs)))"

text \<open>
  \<^verbatim>\<open>readBundleFile\<close>. The loop runs over \<^verbatim>\<open>bundleMarshalized.length\<close>: a number has no
  length and gives the empty bundle, \<^verbatim>\<open>null\<close> throws, and the elements of non-empty binary
  data or of a non-empty string are not arrays.
\<close>

definition readBundleFile :: "env \<Rightarrow> world \<Rightarrow> path \<Rightarrow> error + script list" where
  "readBundleFile env w bundleFile =
     (case readFileSync w bundleFile of
        Inl e \<Rightarrow> Inl e
      | Inr bundleContents \<Rightarrow>
          (case marshal_load env bundleContents of
             None \<Rightarrow> Inl MarshalError
           | Some (JArr bundleMarshalized) \<Rightarrow> decodeScripts env bundleMarshalized
           | Some (JNum n) \<Rightarrow> Inr []
           | Some (JBuf b) \<Rightarrow> if b = [] then Inr [] else Inl TypeError
           | Some (JStr s) \<Rightarrow> if s = [] then Inr [] else Inl TypeError
           | Some JNull \<Rightarrow> Inl TypeError
           | Some JUndefined \<Rightarrow> Inl TypeError))"

section \<open>Extraction\<close>

definition checkValidExtraction :: "script list \<Rightarrow> bool" where
  "checkValidExtraction bundle =
     list_ex (\<lambda>script.
        let scriptSection = fst script
        in if isLoaderScript scriptSection then False
           else if isNumber scriptSection then True
           else False) bundle"

definition checkExtractedScripts :: "env \<Rightarrow> world \<Rightarrow> path \<Rightarrow> error + nat" where
  "checkExtractedScripts env w bundleFile =
     (case readBundleFile env w bundleFile of
        Inl e \<Rightarrow> Inl e
      | Inr bundle \<Rightarrow>
          if checkValidExtraction bundle then Inr SCRIPTS_NOT_EXTRACTED
          else Inr SCRIPTS_EXTRACTED)"

definition createScriptFolder :: "world \<Rightarrow> path \<Rightarrow> unit result" where
  "createScriptFolder w scriptsFolderPath =
     (if \<not> existsSync w scriptsFolderPath then mkdirSync w scriptsFolderPath
      else (Inr (), w))"

text \<open>The loop of \<^verbatim>\<open>extractScripts\<close>, from index \<open>i\<close> on.\<close>

fun extractLoop :: "env \<Rightarrow> path \<Rightarrow> nat \<Rightarrow> script list \<Rightarrow> world \<Rightarrow> unit result" where
  "extractLoop env scriptFolder i [] w = (Inr (), w)"
| "extractLoop env scriptFolder i (script # bundle) w =
     (let section = fst script;
          name = formatScriptName (fst (snd script)) i;
          code = processScriptCode (snd (snd script))
      in if isLoaderScript section then extractLoop env scriptFolder (Suc i) bundle w
         else
           (let scriptPath = join scriptFolder name
            in case writeFileSync w scriptPath (utf8_encode env code) of
                 (Inl e, w') \<Rightarrow> (Inl e, w')
               | (Inr u, w') \<Rightarrow> extractLoop env scriptFolder (Suc i) bundle w'))"

definition extractScripts :: "env \<Rightarrow> world \<Rightarrow> path \<Rightarrow> path \<Rightarrow> nat result" where
  "extractScripts env w bundleFile scriptFolder =
     (case readBundleFile env w bundleFile of
        Inl e \<Rightarrow> (Inl e, w)
      | Inr bundle \<Rightarrow>
          if checkValidExtraction bundle then
            (case createScriptFolder w scriptFolder of
               (Inl e, w1) \<Rightarrow> (Inl e, w1)
             | (Inr u, w1) \<Rightarrow>
                 (case extractLoop env scriptFolder 0 bundle w1 of
                    (Inl e, w2) \<Rightarrow> (Inl e, w2)
                  | (Inr u, w2) \<Rightarrow> (Inr SCRIPTS_EXTRACTED, w2)))
          else (Inr SCRIPTS_NOT_EXTRACTED, w))"

section \<open>The loader bundle\<close>

definition currentDate :: "env \<Rightarrow> jsstring" where
  "currentDate env =
     (let date = now env;
          day = padStart 2 48 (toString (getDate date));
          month = padStart 2 48 (toString (getMonth date + 1));
          year = toString (getFullYear date);
          hour = padStart 2 48 (toString (getHours date));
          minutes = padStart 2 48 (toString (getMinutes date));
          seconds = padStart 2 48 (toString (getSeconds date))
      in year @ js ''-'' @ month @ js ''-'' @ day @ js ''_'' @ hour @ js ''.'' @ minutes
         @ js ''.'' @ seconds)"

definition createBackUp :: "env \<Rightarrow> world \<Rightarrow> path \<Rightarrow> path \<Rightarrow> unit result" where
  "createBackUp env w filePath backUpsFolder =
     (if \<not> existsSync w filePath then (Inl (FileDoesNotExist filePath), w)
      else
        (case (if \<not> existsSync w backUpsFolder then mkdirSync w backUpsFolder
               else (Inr (), w)) of
           (Inl e, w1) \<Rightarrow> (Inl e, w1)
         | (Inr u, w1) \<Rightarrow>
             (let backUpFilePath =
                    join backUpsFolder
                      (basename filePath @ js '' - '' @ currentDate env @ js ''.bak'')
              in copyFileSync w1 filePath backUpFilePath)))"

definition loaderScript :: "env \<Rightarrow> jsstring \<Rightarrow> jsstring" where
  "loaderScript env loaderScriptsFolder =
     (case loaderText env of
        (t0, t1, t2, t3) \<Rightarrow>
          t0 @ LOADER_SCRIPT_NAME @ t1 @ loaderScriptsFolder @ t2 @ LOAD_ORDER_FILE_NAME @ t3)"

definition createScriptLoaderBundle ::
  "env \<Rightarrow> world \<Rightarrow> path \<Rightarrow> path \<Rightarrow> jsstring \<Rightarrow> nat result" where
  "createScriptLoaderBundle env w bundleFile backUpsFolderPath scriptFolder =
     (case createBackUp env w bundleFile backUpsFolderPath of
        (Inl e, w1) \<Rightarrow> (Inl e, w1)
      | (Inr u, w1) \<Rightarrow>
          (let loaderScriptsFolder = resolveRPG env scriptFolder;
               bundle =
                 JArr [JArr [JNum LOADER_SCRIPT_SECTION, JStr LOADER_SCRIPT_NAME,
                   JBuf (deflateSync env
                     (utf8_encode env (loaderScript env loaderScriptsFolder)))]];
               bundleMarshalized = marshal_dump env bundle
           in case writeFileSync w1 bundleFile bundleMarshalized of
                (Inl e, w2) \<Rightarrow> (Inl e, w2)
              | (Inr u, w2) \<Rightarrow> (Inr LOADER_BUNDLE_CREATED, w2)))"

section \<open>Building a bundle\<close>

text \<open>
  The loop of \<^verbatim>\<open>createBundleFile\<close> over the listed scripts. It reads the files and draws
  the sections; \<open>k\<close> counts the random samples drawn so far. The result is the array of
  \<^verbatim>\<open>[section, name, compressed code]\<close>, an error of \<^verbatim>\<open>readFileSync\<close>, or \<open>None\<close> when the
  section loop never ends.
\<close>

fun bundleLoop ::
  "env \<Rightarrow> world \<Rightarrow> path list \<Rightarrow> nat \<Rightarrow> int list \<Rightarrow> (error + jsval list) option" where
  "bundleLoop env w [] k sections = Some (Inr [])"
| "bundleLoop env w (script # scripts) k sections =
     (case generateScriptSection (random env) k sections of
        None \<Rightarrow> None
      | Some (section, k') \<Rightarrow>
          (case readFileSync w script of
             Inl e \<Rightarrow> Some (Inl e)
           | Inr contents \<Rightarrow>
               (let code = utf8_decode env contents;
                    entry = JArr [JNum section, JStr (deformatScriptName script),
                              JBuf (deflateSync env (utf8_encode env code))]
                in case bundleLoop env w scripts k' (sections @ [section]) of
                     None \<Rightarrow> None
                   | Some (Inl e) \<Rightarrow> Some (Inl e)
                   | Some (Inr bundle) \<Rightarrow> Some (Inr (entry # bundle)))))"

definition createBundleFile :: "env \<Rightarrow> world \<Rightarrow> path \<Rightarrow> path \<Rightarrow> nat result option" where
  "createBundleFile env w scriptsFolder destination =
     (if \<not> existsSync w scriptsFolder then Some (Inl (ScriptFolderDoesNotExist scriptsFolder), w)
      else
        (let sections = [LOADER_SCRIPT_SECTION]
         in case readDirectory w scriptsFolder True (filter (\<lambda>entry. isRubyScript w entry)) of
              Inl e \<Rightarrow> Some (Inl e, w)
            | Inr scripts \<Rightarrow>
                (case bundleLoop env w scripts 0 sections of
                   None \<Rightarrow> None
                 | Some (Inl e) \<Rightarrow> Some (Inl e, w)
                 | Some (Inr bundle) \<Rightarrow>
                     (let bundleMarshalized = marshal_dump env (JArr bundle)
                      in case writeFileSync w destination bundleMarshalized of
                           (Inl e, w') \<Rightarrow> Some (Inl e, w')
                         | (Inr u, w') \<Rightarrow> Some (Inr BUNDLE_CREATED, w')))))"

section \<open>Notions used to state the properties\<close>

text \<open>The section that the \<open>k\<close>-th random sample gives.\<close>

definition sample :: "(nat \<Rightarrow> double) \<Rightarrow> nat \<Rightarrow> int" where
  "sample rnd k = Math_floor (mulDouble (rnd k) (fromInt SECTION_MAX_VAL))"

text \<open>\<^verbatim>\<open>entry[0]\<close> of an entry of the array that is dumped.\<close>

fun sectionOf :: "jsval \<Rightarrow> jsval" where
  "sectionOf (JArr (section # rest)) = section"
| "sectionOf v = JUndefined"

text \<open>
  An entry built from a script file: some section, the deformatted name of the file,
  and the compressed text of the file as \<^verbatim>\<open>readFileSync\<close> with \<^verbatim>\<open>utf8\<close> returned it.
\<close>

definition bundleEntry :: "env \<Rightarrow> world \<Rightarrow> jsval \<Rightarrow> path \<Rightarrow> bool" where
  "bundleEntry env w entry script =
     (\<exists>section contents. readFileSync w script = Inr contents \<and>
        entry = JArr [JNum section, JStr (deformatScriptName script),
                  JBuf (deflateSync env (utf8_encode env (utf8_decode env contents)))])"

text \<open>
  The encoding of a sequence of script entries (section, name, code): each code is
  compressed and the array of \<^verbatim>\<open>[section, name, compressed code]\<close> is dumped, as the loop
  and the \<^verbatim>\<open>marshal.dump\<close> call of \<^verbatim>\<open>createBundleFile\<close> do it.
\<close>

definition encodeBundle :: "env \<Rightarrow> (int \<times> jsstring \<times> jsstring) list \<Rightarrow> bytes" where
  "encodeBundle env entries =
     marshal_dump env
       (JArr (map (\<lambda>e. JArr [JNum (fst e), JStr (fst (snd e)),
                           JBuf (deflateSync env (utf8_encode env (snd (snd e))))]) entries))"

text \<open>
  What the libraries owe for a sequence of entries to come back: \<^verbatim>\<open>marshal.load\<close> in
  binary mode returns the dumped array with every string as its UTF-8 bytes, the
  decoder turns the bytes of a name back into the name, and \<^verbatim>\<open>inflateSync\<close> followed by
  the UTF-8 decoding of \<^verbatim>\<open>Buffer\<close> turns a compressed code back into the code.
\<close>

definition loadsBack :: "env \<Rightarrow> (int \<times> jsstring \<times> jsstring) list \<Rightarrow> bool" where
  "loadsBack env entries =
     (marshal_load env (encodeBundle env entries) =
        Some (JArr (map (\<lambda>e. JArr [JNum (fst e), JBuf (utf8_encode env (fst (snd e))),
                               JBuf (deflateSync env (utf8_encode env (snd (snd e))))]) entries)))"

definition decodesBack :: "env \<Rightarrow> int \<times> jsstring \<times> jsstring \<Rightarrow> bool" where
  "decodesBack env e =
     (textDecoder_decode env (utf8_encode env (fst (snd e))) = fst (snd e) \<and>
      inflateSync env (deflateSync env (utf8_encode env (snd (snd e)))) =
        Some (utf8_encode env (snd (snd e))) \<and>
      utf8_decode env (utf8_encode env (snd (snd e))) = snd (snd e))"

text \<open>The names of the entries of a directory, in the order of the listing.\<close>

fun names :: "node option \<Rightarrow> jsstring list" where
  "names (Some (Dir es)) = map fst es"
| "names v = []"

definition dirEntries :: "world \<Rightarrow> path \<Rightarrow> jsstring list" where
  "dirEntries w d = names (lookup (tree w) d)"

text \<open>The events of a run that took the world \<open>w\<close> to \<open>w'\<close>.\<close>

definition newEvents :: "world \<Rightarrow> world \<Rightarrow> event list" where
  "newEvents w w' = drop (length (trace w)) (trace w')"

text \<open>
  In a list of events, every write to the file \<open>p\<close>, attempted or done, comes after a
  successful copy of \<open>p\<close> to \<open>backup\<close>; \<open>copied\<close> tells whether one was seen already.
\<close>

fun writesAfterCopy :: "path \<Rightarrow> path \<Rightarrow> bool \<Rightarrow> event list \<Rightarrow> bool" where
  "writesAfterCopy p backup copied [] = True"
| "writesAfterCopy p backup copied (Mkdir d ok # evs) = writesAfterCopy p backup copied evs"
| "writesAfterCopy p backup copied (CopyFile src dst ok # evs) =
     writesAfterCopy p backup (copied \<or> (src = p \<and> dst = backup \<and> ok)) evs"
| "writesAfterCopy p backup copied (WriteFile q ok # evs) =
     ((if q = p then copied else True) \<and> writesAfterCopy p backup copied evs)"

text \<open>The name of the backup of a file, and the path of the backup in the backup folder.\<close>

definition backUpName :: "env \<Rightarrow> path \<Rightarrow> jsstring" where
  "backUpName env filePath = basename filePath @ js '' - '' @ currentDate env @ js ''.bak''"

definition backUpPath :: "env \<Rightarrow> path \<Rightarrow> path \<Rightarrow> path" where
  "backUpPath env filePath backUpsFolder = join backUpsFolder (backUpName env filePath)"

text \<open>
  The pattern of a backup's name, \<^verbatim>\<open>{basename} - {yyyy-MM-dd_HH.mm.ss}.bak\<close>, read by
  itself: in a date pattern the letters \<^verbatim>\<open>y\<close>, \<^verbatim>\<open>M\<close>, \<^verbatim>\<open>d\<close>, \<^verbatim>\<open>H\<close>, \<^verbatim>\<open>m\<close> and \<^verbatim>\<open>s\<close> stand for one
  digit each, and every other character for itself.
\<close>

fun matchesPattern :: "string \<Rightarrow> jsstring \<Rightarrow> bool" where
  "matchesPattern [] [] = True"
| "matchesPattern (p # ps) (c # cs) =
     ((if p \<in> set ''yMdHms'' then isDigit c else c = of_char p) \<and> matchesPattern ps cs)"
| "matchesPattern [] (c # cs) = False"
| "matchesPattern (p # ps) [] = False"

definition isBackUpName :: "jsstring \<Rightarrow> jsstring \<Rightarrow> bool" where
  "isBackUpName base name =
     (let rest = drop (length base) name
      in take (length base) name = base \<and> take 3 rest = js '' - '' \<and>
         matchesPattern ''yyyy-MM-dd_HH.mm.ss'' (take 19 (drop 3 rest)) \<and>
         drop 22 rest = js ''.bak'')"

text \<open>The one entry of the loader bundle: the reserved section, the fixed name, the loader.\<close>

definition loaderEntry :: "env \<Rightarrow> jsstring \<Rightarrow> int \<times> jsstring \<times> jsstring" where
  "loaderEntry env scriptFolder =
     (LOADER_SCRIPT_SECTION, LOADER_SCRIPT_NAME, loaderScript env (resolveRPG env scriptFolder))"

text \<open>
  The step of \<^verbatim>\<open>createBackUp\<close> that makes sure the backup folder exists, by itself.
\<close>

definition ensureFolder :: "world \<Rightarrow> path \<Rightarrow> unit result" where
  "ensureFolder w d = (if \<not> existsSync w d then mkdirSync w d else (Inr (), w))"

text \<open>The files that a list of events wrote, in order.\<close>

fun writtenFiles :: "event list \<Rightarrow> path list" where
  "writtenFiles [] = []"
| "writtenFiles (WriteFile p ok # evs) = (if ok then [p] else []) @ writtenFiles evs"
| "writtenFiles (Mkdir d ok # evs) = writtenFiles evs"
| "writtenFiles (CopyFile src dst ok # evs) = writtenFiles evs"

text \<open>
  The paths of the scripts of a bundle that are not the loader, each named after its
  position in the whole bundle, counted from \<open>i\<close>; and the file each one is to hold.
\<close>

fun extractTargets :: "path \<Rightarrow> nat \<Rightarrow> script list \<Rightarrow> path list" where
  "extractTargets scriptFolder i [] = []"
| "extractTargets scriptFolder i (script # scripts) =
     (if isLoaderScript (fst script) then []
      else [join scriptFolder (formatScriptName (fst (snd script)) i)])
     @ extractTargets scriptFolder (Suc i) scripts"

fun extractedFiles :: "env \<Rightarrow> path \<Rightarrow> nat \<Rightarrow> script list \<Rightarrow> (path \<times> bytes) list" where
  "extractedFiles env scriptFolder i [] = []"
| "extractedFiles env scriptFolder i (script # scripts) =
     (if isLoaderScript (fst script) then []
      else [(join scriptFolder (formatScriptName (fst (snd script)) i),
             utf8_encode env (processScriptCode (snd (snd script))))])
     @ extractedFiles env scriptFolder (Suc i) scripts"

text \<open>The number that the leading digits of a file name denote.\<close>

definition indexPrefix :: "jsstring \<Rightarrow> nat" where
  "indexPrefix name = foldl (\<lambda>acc c. acc * 10 + (c - 48)) 0 (takeWhile isDigit name)"

section \<open>An environment for the examples\<close>

text \<open>
  A small codec in the place of Marshal, with lengths in unary, for arrays of arrays of
  numbers and binary data; a compressor that prefixes one byte; code units below 256 as
  one byte each. The concrete runs below use it.
\<close>

fun enc_nat :: "nat \<Rightarrow> bytes" where
  "enc_nat 0 = [CHR ''0'']"
| "enc_nat (Suc n) = CHR ''1'' # enc_nat n"

fun dec_nat :: "bytes \<Rightarrow> (nat \<times> bytes) option" where
  "dec_nat [] = None"
| "dec_nat (c # cs) =
     (if c = CHR ''0'' then Some (0, cs)
      else if c = CHR ''1'' then
        (case dec_nat cs of None \<Rightarrow> None | Some (n, r) \<Rightarrow> Some (Suc n, r))
      else None)"

fun enc_scalar :: "jsval \<Rightarrow> bytes" where
  "enc_scalar (JNum n) =
     (if 0 \<le> n then CHR ''i'' # enc_nat (nat n) else CHR ''j'' # enc_nat (nat (- n)))"
| "enc_scalar (JBuf b) = CHR ''s'' # enc_nat (length b) @ b"
| "enc_scalar (JStr s) = CHR ''s'' # enc_nat (length s) @ map char_of s"
| "enc_scalar JNull = [CHR ''n'']"
| "enc_scalar JUndefined = [CHR ''n'']"
| "enc_scalar (JArr vs) = [CHR ''?'']"

fun dec_scalar :: "bytes \<Rightarrow> (jsval \<times> bytes) option" where
  "dec_scalar [] = None"
| "dec_scalar (c # cs) =
     (if c = CHR ''i'' then
        (case dec_nat cs of None \<Rightarrow> None | Some (n, r) \<Rightarrow> Some (JNum (int n), r))
      else if c = CHR ''j'' then
        (case dec_nat cs of None \<Rightarrow> None | Some (n, r) \<Rightarrow> Some (JNum (- int n), r))
      else if c = CHR ''s'' then
        (case dec_nat cs of
           None \<Rightarrow> None
         | Some (n, r) \<Rightarrow> if length r < n then None else Some (JBuf (take n r), drop n r))
      else if c = CHR ''n'' then Some (JNull, cs)
      else None)"

fun dec_many ::
  "(bytes \<Rightarrow> ('a \<times> bytes) option) \<Rightarrow> nat \<Rightarrow> bytes \<Rightarrow> ('a list \<times> bytes) option" where
  "dec_many d 0 bs = Some ([], bs)"
| "dec_many d (Suc n) bs =
     (case d bs of
        None \<Rightarrow> None
      | Some (x, r) \<Rightarrow>
          (case dec_many d n r of None \<Rightarrow> None | Some (xs, r') \<Rightarrow> Some (x # xs, r')))"

fun enc_row :: "jsval \<Rightarrow> bytes" where
  "enc_row (JArr vs) = CHR ''['' # enc_nat (length vs) @ concat (map enc_scalar vs)"
| "enc_row v = [CHR ''?'']"

fun dec_row :: "bytes \<Rightarrow> (jsval \<times> bytes) option" where
  "dec_row [] = None"
| "dec_row (c # cs) =
     (if c = CHR ''['' then
        (case dec_nat cs of
           None \<Rightarrow> None
         | Some (n, r) \<Rightarrow>
             (case dec_many dec_scalar n r of
                None \<Rightarrow> None
              | Some (vs, r') \<Rightarrow> Some (JArr vs, r')))
      else None)"

fun ex_dump :: "jsval \<Rightarrow> bytes" where
  "ex_dump (JArr rows) = CHR ''['' # enc_nat (length rows) @ concat (map enc_row rows)"
| "ex_dump v = [CHR ''?'']"

fun ex_load :: "bytes \<Rightarrow> jsval option" where
  "ex_load [] = None"
| "ex_load (c # cs) =
     (if c = CHR ''['' then
        (case dec_nat cs of
           None \<Rightarrow> None
         | Some (n, r) \<Rightarrow>
             (case dec_many dec_row n r of
                None \<Rightarrow> None
              | Some (rows, r') \<Rightarrow> if r' = [] then Some (JArr rows) else None))
      else None)"

fun ex_inflate :: "bytes \<Rightarrow> bytes option" where
  "ex_inflate [] = None"
| "ex_inflate (c # cs) = (if c = CHR ''z'' then Some cs else None)"

definition ex_env :: env where
  "ex_env =
     \<lparr>marshal_dump = ex_dump,
      marshal_load = ex_load,
      deflateSync = (\<lambda>b. CHR ''z'' # b),
      inflateSync = ex_inflate,
      utf8_encode = map char_of,
      utf8_decode = map of_char,
      textDecoder_decode = map of_char,
      resolveRPG = (\<lambda>p. p),
      now = \<lparr>getFullYear = 2024, getMonth = 0, getDate = 15, getHours = 12,
               getMinutes = 30, getSeconds = 45\<rparr>,
      random = (\<lambda>k. if k = 0 then (0, 53) else if k = 1 then (2 ^ 52, 53) else (2 ^ 51, 53)),
      loaderText = (js ''# ** '', js '' SCRIPTS_PATH = '', js '' File.join(SCRIPTS_PATH, '',
                    js '') ScriptLoader.run'')\<rparr>"

text \<open>A row of a bundle as it is dumped, and as it is loaded in binary mode.\<close>

definition ex_row :: "int \<times> jsstring \<times> bytes \<Rightarrow> jsval" where
  "ex_row e = JArr [JNum (fst e), JStr (fst (snd e)), JBuf (snd (snd e))]"

definition ex_row_loaded :: "int \<times> jsstring \<times> bytes \<Rightarrow> jsval" where
  "ex_row_loaded e = JArr [JNum (fst e), JBuf (map char_of (fst (snd e))), JBuf (snd (snd e))]"

text \<open>
  A project whose bundle holds the loader and two scripts, and a project whose bundle
  holds the loader only.
\<close>

definition ex_bundle_path :: path where
  "ex_bundle_path = [js ''Data'', js ''Scripts.rvdata2'']"

definition ex_entries :: "(int \<times> jsstring \<times> bytes) list" where
  "ex_entries =
     [(7, js ''Main'', CHR ''z'' # map char_of (js ''puts 1'')),
      (LOADER_SCRIPT_SECTION, LOADER_SCRIPT_NAME, CHR ''z'' # map char_of (js ''run'')),
      (9, js ''Util'', CHR ''z'' # map char_of (js ''puts 2''))]"

definition ex_bundle :: jsval where
  "ex_bundle = JArr (map ex_row ex_entries)"

definition ex_world :: world where
  "ex_world =
     \<lparr>tree = Dir [(js ''Data'', Dir [(js ''Scripts.rvdata2'', File (ex_dump ex_bundle))])],
      trace = []\<rparr>"

definition ex_loader_entries :: "(int \<times> jsstring \<times> bytes) list" where
  "ex_loader_entries =
     [(LOADER_SCRIPT_SECTION, LOADER_SCRIPT_NAME, CHR ''z'' # map char_of (js ''run''))]"

definition ex_loader_bundle :: jsval where
  "ex_loader_bundle = JArr (map ex_row ex_loader_entries)"

definition ex_loader_world :: world where
  "ex_loader_world =
     \<lparr>tree = Dir [(js ''Data'',
               Dir [(js ''Scripts.rvdata2'', File (ex_dump ex_loader_bundle))])],
      trace = []\<rparr>"

text \<open>A scripts folder with two script files and a text file, beside an empty data folder.\<close>

definition ex_scripts_folder :: path where
  "ex_scripts_folder = [js ''Scripts'']"

definition ex_scripts_world :: world where
  "ex_scripts_world =
     \<lparr>tree = Dir
        [(js ''Scripts'',
          Dir [(js ''Main.rb'', File (map char_of (js ''puts 1''))),
               (js ''0012 - Util.rb'',
                File (map char_of (js ''# encoding: utf-8'' @ [10] @ js ''puts 2''))),
               (js ''notes.txt'', File [])]),
         (js ''Data'', Dir [])],
      trace = []\<rparr>"

text \<open>The world after the bundle of the scripts folder was built into the data folder.\<close>

definition ex_built_entries :: "(int \<times> jsstring \<times> bytes) list" where
  "ex_built_entries =
     [(0, js ''Main'', CHR ''z'' # map char_of (js ''puts 1'')),
      (66884710, js '' Util'',
       CHR ''z'' # map char_of (js ''# encoding: utf-8'' @ [10] @ js ''puts 2''))]"

definition ex_built_world :: world where
  "ex_built_world =
     \<lparr>tree = Dir
        [(js ''Scripts'',
          Dir [(js ''Main.rb'', File (map char_of (js ''puts 1''))),
               (js ''0012 - Util.rb'',
                File (map char_of (js ''# encoding: utf-8'' @ [10] @ js ''puts 2''))),
               (js ''notes.txt'', File [])]),
         (js ''Data'',
          Dir [(js ''Scripts.rvdata2'', File (ex_dump (JArr (map ex_row ex_built_entries))))])],
      trace = [WriteFile ex_bundle_path True]\<rparr>"

text \<open>
  A backups folder; the example project after the loader bundle was created with the
  backup in that folder; and a project whose backups folder already holds a file with
  the name of the backup.
\<close>

definition ex_backups :: path where
  "ex_backups = [js ''Backups'']"

definition ex_loader_made_world :: world where
  "ex_loader_made_world =
     \<lparr>tree = Dir
        [(js ''Data'',
          Dir [(js ''Scripts.rvdata2'',
                File (encodeBundle ex_env [loaderEntry ex_env (js ''Scripts'')]))]),
         (js ''Backups'', Dir [(backUpName ex_env ex_bundle_path, File (ex_dump ex_bundle))])],
      trace = [Mkdir ex_backups True,
               CopyFile ex_bundle_path (backUpPath ex_env ex_bundle_path ex_backups) True,
               WriteFile ex_bundle_path True]\<rparr>"

definition ex_backup_world :: world where
  "ex_backup_world =
     \<lparr>tree = Dir
        [(js ''Data'', Dir [(js ''Scripts.rvdata2'', File (ex_dump ex_bundle))]),
         (js ''Backups'',
          Dir [(js ''Scripts.rvdata2 - 2024-01-15_12.30.45.bak'', File ''an older backup'')])],
      trace = []\<rparr>"

definition ex_backup_made_world :: world where
  "ex_backup_made_world =
     \<lparr>tree = Dir
        [(js ''Data'',
          Dir [(js ''Scripts.rvdata2'',
                File (encodeBundle ex_env [loaderEntry ex_env (js ''Scripts'')]))]),
         (js ''Backups'',
          Dir [(js ''Scripts.rvdata2 - 2024-01-15_12.30.45.bak'', File (ex_dump ex_bundle))])],
      trace = [CopyFile ex_bundle_path
                 (join ex_backups (js ''Scripts.rvdata2 - 2024-01-15_12.30.45.bak'')) True,
               WriteFile ex_bundle_path True]\<rparr>"

text \<open>The example project after its scripts were extracted into the scripts folder.\<close>

definition ex_extracted_world :: world where
  "ex_extracted_world =
     \<lparr>tree = Dir
        [(js ''Data'', Dir [(js ''Scripts.rvdata2'', File (ex_dump ex_bundle))]),
         (js ''Scripts'',
          Dir [(js ''0000 - Main.rb'',
                File (map char_of (js ''# encoding: utf-8'' @ [10] @ js ''puts 1''))),
               (js ''0002 - Util.rb'',
                File (map char_of (js ''# encoding: utf-8'' @ [10] @ js ''puts 2'')))])],
      trace = [Mkdir ex_scripts_folder True,
               WriteFile [js ''Scripts'', js ''0000 - Main.rb''] True,
               WriteFile [js ''Scripts'', js ''0002 - Util.rb''] True]\<rparr>"

text \<open>
  A project whose bundle holds one script with a string in the place of its section.
\<close>

definition ex_odd_world :: world where
  "ex_odd_world =
     \<lparr>tree = Dir [(js ''Data'',
        Dir [(js ''Scripts.rvdata2'',
              File (ex_dump (JArr [JArr [JStr (js ''7''), JStr (js ''Odd''),
                                         JBuf (CHR ''z'' # map char_of (js ''puts 3''))]])))])],
      trace = []\<rparr>"

text \<open>
  The environment whose second sample repeats the first, so that the second script of
  a build draws a section that is taken and draws again; and the example scripts
  folder after the build with it.
\<close>

definition ex_retry_env :: env where
  "ex_retry_env = ex_env\<lparr>random := (\<lambda>k. if k < 2 then (2 ^ 52, 53) else (2 ^ 51, 53))\<rparr>"

definition ex_retry_entries :: "(int \<times> jsstring \<times> bytes) list" where
  "ex_retry_entries =
     [(66884710, js ''Main'', CHR ''z'' # map char_of (js ''puts 1'')),
      (33442355, js '' Util'',
       CHR ''z'' # map char_of (js ''# encoding: utf-8'' @ [10] @ js ''puts 2''))]"

definition ex_retry_world :: world where
  "ex_retry_world =
     \<lparr>tree = Dir
        [(js ''Scripts'',
          Dir [(js ''Main.rb'', File (map char_of (js ''puts 1''))),
               (js ''0012 - Util.rb'',
                File (map char_of (js ''# encoding: utf-8'' @ [10] @ js ''puts 2''))),
               (js ''notes.txt'', File [])]),
         (js ''Data'',
          Dir [(js ''Scripts.rvdata2'', File (ex_dump (JArr (map ex_row ex_retry_entries))))])],
      trace = [WriteFile ex_bundle_path True]\<rparr>"

text \<open>
  The environment with the UTF-8 conversions of the platform, whose codec in the place
  of Marshal dumps a string as its UTF-8 bytes; a project whose bundle file is the
  encoding of two scripts with names and codes beyond ASCII; and one whose bundle file
  is the encoding of a script named by a surrogate without its partner and a script
  whose name begins with U+FEFF.
\<close>

fun utf8Scalar :: "jsval \<Rightarrow> jsval" where
  "utf8Scalar (JStr s) = JBuf (utf8Encode s)"
| "utf8Scalar v = v"

fun utf8Rows :: "jsval \<Rightarrow> jsval" where
  "utf8Rows (JArr rows) =
     JArr (map (\<lambda>row. case row of JArr vs \<Rightarrow> JArr (map utf8Scalar vs) | _ \<Rightarrow> row) rows)"
| "utf8Rows v = v"

definition utf_env :: env where
  "utf_env =
     ex_env\<lparr>marshal_dump := (\<lambda>v. ex_dump (utf8Rows v)),
             utf8_encode := utf8Encode,
             utf8_decode := utf8Decode,
             textDecoder_decode := textDecode\<rparr>"

definition utf_entries :: "(int \<times> jsstring \<times> jsstring) list" where
  "utf_entries =
     [(7, js ''Main'' @ [233, 9731, 55357, 56832], js ''puts 1''),
      (9, js ''Util'', js ''puts '' @ [8364])]"

definition utf_world :: world where
  "utf_world =
     \<lparr>tree = Dir [(js ''Data'',
               Dir [(js ''Scripts.rvdata2'', File (encodeBundle utf_env utf_entries))])],
      trace = []\<rparr>"

definition broken_entries :: "(int \<times> jsstring \<times> jsstring) list" where
  "broken_entries = [(7, [55296], js ''puts 1''), (9, 65279 # js ''Util'', js ''puts 2'')]"

definition broken_world :: world where
  "broken_world =
     \<lparr>tree = Dir [(js ''Data'',
               Dir [(js ''Scripts.rvdata2'', File (encodeBundle utf_env broken_entries))])],
      trace = []\<rparr>"

text \<open>A row of a bundle whose name is binary data already.\<close>

definition bin_row :: "int \<times> bytes \<times> bytes \<Rightarrow> jsval" where
  "bin_row e = JArr [JNum (fst e), JBuf (fst (snd e)), JBuf (snd (snd e))]"

section \<open>The example codec\<close>

lemma dec_nat_enc_nat: "dec_nat (enc_nat n @ r) = Some (n, r)"
  by (induction n) auto

lemma dec_scalar_num: "0 \<le> n \<Longrightarrow> dec_scalar (enc_scalar (JNum n) @ r) = Some (JNum n, r)"
  by (simp add: dec_nat_enc_nat)

lemma dec_scalar_str: "dec_scalar (enc_scalar (JStr s) @ r) = Some (JBuf (map char_of s), r)"
  by (simp add: dec_nat_enc_nat)

lemma dec_scalar_buf: "dec_scalar (enc_scalar (JBuf b) @ r) = Some (JBuf b, r)"
  by (simp add: dec_nat_enc_nat)

lemma dec_row_enc_row:
  "0 \<le> fst e \<Longrightarrow> dec_row (enc_row (ex_row e) @ r) = Some (ex_row_loaded e, r)"
  unfolding ex_row_def ex_row_loaded_def
  by (simp add: dec_nat_enc_nat numeral_3_eq_3 del: enc_scalar.simps dec_scalar.simps)
     (simp add: dec_scalar_num dec_scalar_str dec_scalar_buf del: enc_scalar.simps dec_scalar.simps)

lemma dec_many_rows:
  "list_all (\<lambda>e. 0 \<le> fst e) es \<Longrightarrow>
   dec_many dec_row (length es) (concat (map enc_row (map ex_row es)) @ r) =
     Some (map ex_row_loaded es, r)"
  by (induction es) (simp_all add: dec_row_enc_row del: enc_row.simps dec_row.simps)

lemma ex_load_dump:
  "list_all (\<lambda>e. 0 \<le> fst e) es \<Longrightarrow>
   ex_load (ex_dump (JArr (map ex_row es))) = Some (JArr (map ex_row_loaded es))"
  using dec_many_rows [of es "[]"] by (simp add: dec_nat_enc_nat)

lemma ex_entries_nonneg: "list_all (\<lambda>e. 0 \<le> fst e) ex_entries"
  by (simp add: ex_entries_def LOADER_SCRIPT_SECTION_def)

lemma ex_read_bundle:
  "readBundleFile ex_env ex_world ex_bundle_path =
     Inr [(JNum 7, js ''Main'', js ''puts 1''),
          (JNum LOADER_SCRIPT_SECTION, LOADER_SCRIPT_NAME, js ''run''),
          (JNum 9, js ''Util'', js ''puts 2'')]"
proof -
  have rd: "readFileSync ex_world ex_bundle_path = Inr (ex_dump ex_bundle)"
    by (simp add: readFileSync_def ex_world_def ex_bundle_path_def js_def)
  have "ex_load (ex_dump ex_bundle) = Some (JArr (map ex_row_loaded ex_entries))"
    unfolding ex_bundle_def by (rule ex_load_dump [OF ex_entries_nonneg])
  then have ld: "marshal_load ex_env (ex_dump ex_bundle) = Some (JArr (map ex_row_loaded ex_entries))"
    by (simp add: ex_env_def)
  have dec: "decodeScripts ex_env (map ex_row_loaded ex_entries) =
     Inr [(JNum 7, js ''Main'', js ''puts 1''),
          (JNum LOADER_SCRIPT_SECTION, LOADER_SCRIPT_NAME, js ''run''),
          (JNum 9, js ''Util'', js ''puts 2'')]"
    by (simp add: ex_entries_def ex_row_loaded_def decodeScript_def ex_env_def js_def LOADER_SCRIPT_NAME_def)
  show ?thesis
    unfolding readBundleFile_def rd by (simp add: ld dec)
qed

lemma ex_loader_entries_nonneg: "list_all (\<lambda>e. 0 \<le> fst e) ex_loader_entries"
  by (simp add: ex_loader_entries_def LOADER_SCRIPT_SECTION_def)

lemma ex_read_loader_bundle:
  "readBundleFile ex_env ex_loader_world ex_bundle_path =
     Inr [(JNum LOADER_SCRIPT_SECTION, LOADER_SCRIPT_NAME, js ''run'')]"
proof -
  have rd: "readFileSync ex_loader_world ex_bundle_path = Inr (ex_dump ex_loader_bundle)"
    by (simp add: readFileSync_def ex_loader_world_def ex_bundle_path_def js_def)
  have "ex_load (ex_dump ex_loader_bundle) = Some (JArr (map ex_row_loaded ex_loader_entries))"
    unfolding ex_loader_bundle_def by (rule ex_load_dump [OF ex_loader_entries_nonneg])
  then have ld: "marshal_load ex_env (ex_dump ex_loader_bundle) =
      Some (JArr (map ex_row_loaded ex_loader_entries))"
    by (simp add: ex_env_def)
  have dec: "decodeScripts ex_env (map ex_row_loaded ex_loader_entries) =
     Inr [(JNum LOADER_SCRIPT_SECTION, LOADER_SCRIPT_NAME, js ''run'')]"
    by (simp add: ex_loader_entries_def ex_row_loaded_def decodeScript_def ex_env_def js_def
          LOADER_SCRIPT_NAME_def)
  show ?thesis
    unfolding readBundleFile_def rd by (simp add: ld dec)
qed

lemma ex_scripts_listed:
  "readDirectory ex_scripts_world ex_scripts_folder True
     (filter (\<lambda>entry. isRubyScript ex_scripts_world entry)) =
   Inr [[js ''Scripts'', js ''Main.rb''], [js ''Scripts'', js ''0012 - Util.rb'']]"
  by (simp add: readDirectory_def readDir_def ex_scripts_world_def ex_scripts_folder_def
        join_def isRubyScript_def existsSync_def isFile_def extname_def basename_def
        toLowerCase_def js_def Let_def)

lemma ex_random:
  "Math_floor (mulDouble (0, 53) (fromInt SECTION_MAX_VAL)) = 0"
  "Math_floor (mulDouble (4503599627370496, 53) (fromInt SECTION_MAX_VAL)) = 66884710"
  "Math_floor (mulDouble (2251799813685248, 53) (fromInt SECTION_MAX_VAL)) = 33442355"
  by (simp_all add: Math_floor_def mulDouble_def fromInt_def roundDouble_def bitLength.simps
        Let_def SECTION_MAX_VAL_def)

lemma ex_sample_0: "generateScriptSection (random ex_env) 0 [LOADER_SCRIPT_SECTION] = Some (0, 1)"
  by (subst generateScriptSection.simps)
     (simp add: ex_env_def ex_random LOADER_SCRIPT_SECTION_def)

lemma ex_sample_1:
  "generateScriptSection (random ex_env) (Suc 0) [LOADER_SCRIPT_SECTION, 0] = Some (66884710, 2)"
  by (subst generateScriptSection.simps)
     (simp add: ex_env_def ex_random LOADER_SCRIPT_SECTION_def)

lemma ex_deformat_main: "deformatScriptName [js ''Scripts'', js ''Main.rb''] = js ''Main''"
  by (simp add: deformatScriptName_def basename_def DEFORMAT_SCRIPT_NAME_def js_def isDigit_def
        isWhiteSpace_def isDot_def)

lemma ex_deformat_util:
  "deformatScriptName [js ''Scripts'', js ''0012 - Util.rb''] = js '' Util''"
  by (simp add: deformatScriptName_def basename_def DEFORMAT_SCRIPT_NAME_def js_def isDigit_def
        isWhiteSpace_def isDot_def)

lemma ex_utf8_bytes: "utf8_encode ex_env (utf8_decode ex_env b) = b"
  by (simp add: ex_env_def comp_def)

lemma ex_utf8_string: "list_all (\<lambda>c. c < 256) s \<Longrightarrow> utf8_decode ex_env (utf8_encode ex_env s) = s"
  by (induction s) (simp_all add: ex_env_def)

lemma ex_deflate: "deflateSync ex_env b = CHR ''z'' # b"
  by (simp add: ex_env_def)

lemma ex_inflate_deflate: "inflateSync ex_env (deflateSync ex_env b) = Some b"
  by (simp add: ex_env_def)

lemma ex_read_main:
  "readFileSync ex_scripts_world [js ''Scripts'', js ''Main.rb''] = Inr (map char_of (js ''puts 1''))"
  by (simp add: readFileSync_def ex_scripts_world_def js_def)

lemma ex_read_util:
  "readFileSync ex_scripts_world [js ''Scripts'', js ''0012 - Util.rb''] =
     Inr (map char_of (js ''# encoding: utf-8'' @ [10] @ js ''puts 2''))"
  by (simp add: readFileSync_def ex_scripts_world_def js_def)

lemma ex_scripts_loop:
  "bundleLoop ex_env ex_scripts_world
     [[js ''Scripts'', js ''Main.rb''], [js ''Scripts'', js ''0012 - Util.rb'']]
     0 [LOADER_SCRIPT_SECTION] =
   Some (Inr (map ex_row
     [(0, js ''Main'', CHR ''z'' # map char_of (js ''puts 1'')),
      (66884710, js '' Util'',
       CHR ''z'' # map char_of (js ''# encoding: utf-8'' @ [10] @ js ''puts 2''))]))"
  by (simp add: ex_sample_0 ex_sample_1 ex_deformat_main ex_deformat_util ex_row_def Let_def
        ex_read_main ex_read_util ex_utf8_bytes ex_deflate)

lemma ex_scripts_loop_built:
  "bundleLoop ex_env ex_scripts_world
     [[js ''Scripts'', js ''Main.rb''], [js ''Scripts'', js ''0012 - Util.rb'']]
     0 [LOADER_SCRIPT_SECTION] = Some (Inr (map ex_row ex_built_entries))"
  unfolding ex_built_entries_def by (rule ex_scripts_loop)

lemma ex_build:
  "createBundleFile ex_env ex_scripts_world ex_scripts_folder ex_bundle_path =
     Some (Inr BUNDLE_CREATED, ex_built_world)"
proof -
  have ex: "existsSync ex_scripts_world ex_scripts_folder"
    by (simp add: existsSync_def ex_scripts_world_def ex_scripts_folder_def)
  have wr: "writeFileSync ex_scripts_world ex_bundle_path
      (ex_dump (JArr (map ex_row ex_built_entries))) = (Inr (), ex_built_world)"
    by (simp add: writeFileSync_def ex_scripts_world_def ex_built_world_def ex_bundle_path_def
          js_def del: ex_dump.simps)
  have md: "marshal_dump ex_env = ex_dump" by (simp add: ex_env_def)
  show ?thesis
    unfolding createBundleFile_def
    by (simp add: ex ex_scripts_listed ex_scripts_loop_built md wr Let_def
          del: ex_dump.simps bundleLoop.simps)
qed

lemma ex_built_nonneg: "list_all (\<lambda>e. 0 \<le> fst e) ex_built_entries"
  by (simp add: ex_built_entries_def)

lemma ex_read_built:
  "readBundleFile ex_env ex_built_world ex_bundle_path =
     Inr [(JNum 0, js ''Main'', js ''puts 1''),
          (JNum 66884710, js '' Util'', js ''# encoding: utf-8'' @ [10] @ js ''puts 2'')]"
proof -
  have rd: "readFileSync ex_built_world ex_bundle_path =
      Inr (ex_dump (JArr (map ex_row ex_built_entries)))"
    by (simp add: readFileSync_def ex_built_world_def ex_bundle_path_def js_def del: ex_dump.simps)
  have "ex_load (ex_dump (JArr (map ex_row ex_built_entries))) =
      Some (JArr (map ex_row_loaded ex_built_entries))"
    by (rule ex_load_dump [OF ex_built_nonneg])
  then have ld: "marshal_load ex_env (ex_dump (JArr (map ex_row ex_built_entries))) =
      Some (JArr (map ex_row_loaded ex_built_entries))"
    by (simp add: ex_env_def)
  have dec: "decodeScripts ex_env (map ex_row_loaded ex_built_entries) =
     Inr [(JNum 0, js ''Main'', js ''puts 1''),
          (JNum 66884710, js '' Util'', js ''# encoding: utf-8'' @ [10] @ js ''puts 2'')]"
    by (simp add: ex_built_entries_def ex_row_loaded_def decodeScript_def ex_env_def js_def)
  show ?thesis
    unfolding readBundleFile_def rd by (simp add: ld dec del: ex_dump.simps)
qed

lemma ex_encodeBundle:
  "encodeBundle ex_env entries =
     ex_dump (JArr (map ex_row
       (map (\<lambda>e. (fst e, fst (snd e), CHR ''z'' # map char_of (snd (snd e)))) entries)))"
  by (simp add: encodeBundle_def ex_env_def ex_row_def comp_def del: ex_dump.simps)

lemma ex_loadsBack: "list_all (\<lambda>e. 0 \<le> fst e) entries \<Longrightarrow> loadsBack ex_env entries"
proof -
  assume "list_all (\<lambda>e. 0 \<le> fst e) entries"
  then have "list_all (\<lambda>e. 0 \<le> fst e)
      (map (\<lambda>e. (fst e, fst (snd e), CHR ''z'' # map char_of (snd (snd e)))) entries)"
    by (simp add: list_all_iff)
  from ex_load_dump [OF this] show ?thesis
    unfolding loadsBack_def ex_encodeBundle
    by (simp add: ex_env_def ex_row_loaded_def comp_def del: ex_dump.simps ex_load.simps)
qed

lemma ex_read_odd_bundle:
  "readBundleFile ex_env ex_odd_world ex_bundle_path =
     Inr [(JBuf (map char_of (js ''7'')), js ''Odd'', js ''puts 3'')]"
proof -
  have rd: "readFileSync ex_odd_world ex_bundle_path =
      Inr (ex_dump (JArr [JArr [JStr (js ''7''), JStr (js ''Odd''),
                                JBuf (CHR ''z'' # map char_of (js ''puts 3''))]]))"
    by (simp add: readFileSync_def ex_odd_world_def ex_bundle_path_def js_def del: ex_dump.simps)
  have last: "dec_scalar (enc_scalar (JBuf b)) = Some (JBuf b, [])" for b
    using dec_scalar_buf [of b "[]"] by (simp del: enc_scalar.simps dec_scalar.simps)
  have row: "dec_row (enc_row (JArr [JStr (js ''7''), JStr (js ''Odd''),
                 JBuf (CHR ''z'' # map char_of (js ''puts 3''))]) @ []) =
      Some (JArr [JBuf (map char_of (js ''7'')), JBuf (map char_of (js ''Odd'')),
                  JBuf (CHR ''z'' # map char_of (js ''puts 3''))], [])"
    by (simp add: dec_nat_enc_nat numeral_3_eq_3 del: enc_scalar.simps dec_scalar.simps)
       (simp add: dec_scalar_str dec_scalar_buf last
          del: enc_scalar.simps dec_scalar.simps)
  have ld: "marshal_load ex_env (ex_dump (JArr [JArr [JStr (js ''7''), JStr (js ''Odd''),
                                JBuf (CHR ''z'' # map char_of (js ''puts 3''))]])) =
      Some (JArr [JArr [JBuf (map char_of (js ''7'')), JBuf (map char_of (js ''Odd'')),
                  JBuf (CHR ''z'' # map char_of (js ''puts 3''))]])"
    using row
    by (simp add: ex_env_def dec_nat_enc_nat del: enc_row.simps dec_row.simps)
  have dec: "decodeScripts ex_env [JArr [JBuf (map char_of (js ''7'')), JBuf (map char_of (js ''Odd'')),
                  JBuf (CHR ''z'' # map char_of (js ''puts 3''))]] =
     Inr [(JBuf (map char_of (js ''7'')), js ''Odd'', js ''puts 3'')]"
    by (simp add: decodeScript_def ex_env_def js_def)
  show ?thesis
    unfolding readBundleFile_def rd by (simp add: ld dec del: ex_dump.simps decodeScripts.simps)
qed

lemma ex_retry_random:
  "random ex_retry_env 0 = (4503599627370496, 53)"
  "random ex_retry_env (Suc 0) = (4503599627370496, 53)"
  "random ex_retry_env (Suc (Suc 0)) = (2251799813685248, 53)"
  by (simp_all add: ex_retry_env_def)

lemma ex_retry_sample_0:
  "generateScriptSection (random ex_retry_env) 0 [LOADER_SCRIPT_SECTION] = Some (66884710, 1)"
  by (subst generateScriptSection.simps)
     (simp add: ex_retry_random ex_random LOADER_SCRIPT_SECTION_def)

lemma ex_retry_sample_2:
  "generateScriptSection (random ex_retry_env) (Suc (Suc 0)) [LOADER_SCRIPT_SECTION, 66884710] =
     Some (33442355, 3)"
  by (subst generateScriptSection.simps)
     (simp add: ex_retry_random ex_random LOADER_SCRIPT_SECTION_def)

lemma ex_retry_sample_1:
  "generateScriptSection (random ex_retry_env) (Suc 0) [LOADER_SCRIPT_SECTION, 66884710] =
     Some (33442355, 3)"
  by (subst generateScriptSection.simps)
     (simp add: ex_retry_random ex_random ex_retry_sample_2)

lemma ex_retry_loop:
  "bundleLoop ex_retry_env ex_scripts_world
     [[js ''Scripts'', js ''Main.rb''], [js ''Scripts'', js ''0012 - Util.rb'']]
     0 [LOADER_SCRIPT_SECTION] = Some (Inr (map ex_row ex_retry_entries))"
proof -
  have u: "utf8_encode ex_retry_env (utf8_decode ex_retry_env b) = b" for b
    using ex_utf8_bytes [of b] by (simp add: ex_retry_env_def)
  have d: "deflateSync ex_retry_env b = CHR ''z'' # b" for b
    using ex_deflate [of b] by (simp add: ex_retry_env_def)
  show ?thesis
    unfolding ex_retry_entries_def
    by (simp add: ex_retry_sample_0 ex_retry_sample_1 ex_deformat_main ex_deformat_util
          ex_row_def Let_def ex_read_main ex_read_util u d)
qed

lemma ex_retry_build:
  "createBundleFile ex_retry_env ex_scripts_world ex_scripts_folder ex_bundle_path =
     Some (Inr BUNDLE_CREATED, ex_retry_world)"
proof -
  have ex: "existsSync ex_scripts_world ex_scripts_folder"
    by (simp add: existsSync_def ex_scripts_world_def ex_scripts_folder_def)
  have wr: "writeFileSync ex_scripts_world ex_bundle_path
      (ex_dump (JArr (map ex_row ex_retry_entries))) = (Inr (), ex_retry_world)"
    by (simp add: writeFileSync_def ex_scripts_world_def ex_retry_world_def ex_bundle_path_def
          js_def del: ex_dump.simps)
  have md: "marshal_dump ex_retry_env = ex_dump" by (simp add: ex_retry_env_def ex_env_def)
  show ?thesis
    unfolding createBundleFile_def
    by (simp add: ex ex_scripts_listed ex_retry_loop md wr Let_def
          del: ex_dump.simps bundleLoop.simps)
qed

section \<open>Properties of the name formatter\<close>

lemma toString_digits: "list_all isDigit (toString n)"
proof (induction n rule: toString.induct)
  case (1 n)
  show ?case
  proof (cases "n < 10")
    case True
    then show ?thesis by (subst toString.simps) (simp add: isDigit_def)
  next
    case False
    have "n mod 10 < 10" by simp
    then have "isDigit (48 + n mod 10)" unfolding isDigit_def by linarith
    with False 1 show ?thesis by (subst toString.simps) simp
  qed
qed

lemma foldl_digits_toString:
  "foldl (\<lambda>acc c. acc * 10 + (c - 48)) a (toString n) = a * 10 ^ length (toString n) + n"
proof (induction n arbitrary: a rule: toString.induct)
  case (1 n)
  show ?case
  proof (cases "n < 10")
    case True
    then show ?thesis by (subst (1 2) toString.simps) simp
  next
    case False
    have t: "toString n = toString (n div 10) @ [48 + n mod 10]"
      using False by (subst toString.simps) simp
    from 1 [OF False, of a] show ?thesis
      by (simp add: t algebra_simps)
  qed
qed

lemma foldl_digits_zeros:
  "foldl (\<lambda>acc c. acc * 10 + (c - 48)) 0 (replicate k 48) = (0::nat)"
  by (induction k) simp_all

lemma toString_nonempty: "toString n \<noteq> []"
  by (subst toString.simps) simp

lemma padStart_digits: "list_all isDigit (padStart 4 48 (toString i))"
  using toString_digits [of i] by (auto simp: padStart_def list_all_iff isDigit_def)

lemma formatScriptName_shape:
  "\<exists>rest. formatScriptName name i = padStart 4 48 (toString i) @ js '' - '' @ rest"
  by (simp add: formatScriptName_def Let_def)

lemma indexPrefix_formatScriptName: "indexPrefix (formatScriptName name i) = i"
proof -
  obtain rest where f: "formatScriptName name i = padStart 4 48 (toString i) @ js '' - '' @ rest"
    using formatScriptName_shape by blast
  have d: "\<forall>c \<in> set (padStart 4 48 (toString i)). isDigit c"
    using padStart_digits [of i] by (simp add: list_all_iff)
  have "takeWhile isDigit (formatScriptName name i) = padStart 4 48 (toString i)"
    unfolding f using d by (simp add: takeWhile_append2 js_def isDigit_def)
  then show ?thesis
    by (simp add: indexPrefix_def padStart_def foldl_digits_zeros foldl_digits_toString)
qed

section \<open>The file system's operations\<close>

lemma put_lookup: "put t p b = Inr t' \<Longrightarrow> lookup t' p = Some (File b)"
proof (induction t p b arbitrary: t' rule: put.induct)
  case (4 es c cs b)
  show ?case
  proof (cases "map_of es c")
    case None
    with 4(2) have cs: "cs = []" and t': "t' = Dir (es @ [(c, File b)])"
      by (auto split: if_splits)
    show ?thesis using None by (simp add: cs t' map_add_def)
  next
    case (Some n)
    with 4(2) obtain n' where p: "put n cs b = Inr n'" and t': "t' = Dir (AList.update c n' es)"
      by (auto split: sum.splits)
    from 4(1) [OF Some p] show ?thesis by (simp add: t' update_conv')
  qed
qed auto

lemma mkdirp_fresh: "mkdirp (Dir []) cs = Inr n' \<Longrightarrow> lookup n' cs = Some (Dir [])"
proof (induction cs arbitrary: n')
  case Nil
  then show ?case by simp
next
  case (Cons c cs)
  then show ?case by (auto split: sum.splits)
qed

lemma mkdirp_creates:
  "mkdirp t p = Inr t' \<Longrightarrow> lookup t p = None \<Longrightarrow> lookup t' p = Some (Dir [])"
proof (induction t p arbitrary: t' rule: mkdirp.induct)
  case (4 es c cs)
  show ?case
  proof (cases "map_of es c")
    case None
    with 4(3) obtain n' where n: "mkdirp (Dir []) cs = Inr n'" and t': "t' = Dir (es @ [(c, n')])"
      by (auto split: sum.splits)
    from mkdirp_fresh [OF n] show ?thesis using None by (simp add: t' map_add_def)
  next
    case (Some n)
    with 4(3) obtain n' where n: "mkdirp n cs = Inr n'" and t': "t' = Dir (AList.update c n' es)"
      by (auto split: sum.splits)
    from 4(4) Some have "lookup n cs = None" by simp
    from 4(2) [OF Some n this] show ?thesis by (simp add: t' update_conv')
  qed
qed auto

lemma mkdirp_keeps:
  "mkdirp t q = Inr t' \<Longrightarrow> lookup t p = Some n \<Longrightarrow>
   (case n of File b \<Rightarrow> lookup t' p = Some (File b) | Dir es \<Rightarrow> \<exists>es'. lookup t' p = Some (Dir es'))"
proof (induction t q arbitrary: t' p n rule: mkdirp.induct)
  case (1 es)
  then show ?case by (auto split: node.splits)
next
  case (2 b)
  then show ?case by simp
next
  case (3 b c cs)
  then show ?case by simp
next
  case (4 es c cs)
  show ?case
  proof (cases p)
    case Nil
    with 4(3,4) show ?thesis by (auto split: option.splits sum.splits)
  next
    case (Cons c' cs')
    with 4(4) obtain m where m: "map_of es c' = Some m" and lm: "lookup m cs' = Some n"
      by (auto split: option.splits)
    show ?thesis
    proof (cases "map_of es c")
      case None
      with 4(3) obtain n' where t': "t' = Dir (es @ [(c, n')])"
        by (auto split: sum.splits)
      have "lookup t' p = Some n" using m lm by (simp add: t' Cons map_add_def)
      then show ?thesis by (auto split: node.splits)
    next
      case (Some k)
      with 4(3) obtain k' where k: "mkdirp k cs = Inr k'" and t': "t' = Dir (AList.update c k' es)"
        by (auto split: sum.splits)
      show ?thesis
      proof (cases "c' = c")
        case True
        with m Some have "m = k" by simp
        with 4(2) [OF Some k] lm have
          "case n of File b \<Rightarrow> lookup k' cs' = Some (File b)
                   | Dir es \<Rightarrow> \<exists>es'. lookup k' cs' = Some (Dir es')" by simp
        moreover have "lookup t' p = lookup k' cs'" using True by (simp add: t' Cons update_conv')
        ultimately show ?thesis by (auto split: node.splits)
      next
        case False
        then have "lookup t' p = Some n" using m lm by (simp add: t' Cons update_conv')
        then show ?thesis by (auto split: node.splits)
      qed
    qed
  qed
qed

lemma put_keeps:
  "put t q b = Inr t' \<Longrightarrow> lookup t p = Some n \<Longrightarrow> p \<noteq> q \<Longrightarrow>
   (case n of File c \<Rightarrow> lookup t' p = Some (File c) | Dir es \<Rightarrow> \<exists>es'. lookup t' p = Some (Dir es'))"
proof (induction t q b arbitrary: t' p n rule: put.induct)
  case (1 old b)
  then show ?case by (cases p) auto
next
  case (2 es b)
  then show ?case by simp
next
  case (3 old c cs b)
  then show ?case by simp
next
  case (4 es c cs b)
  show ?case
  proof (cases p)
    case Nil
    with 4(2,3) show ?thesis by (auto split: option.splits sum.splits if_splits)
  next
    case (Cons c' cs')
    with 4(3) obtain m where m: "map_of es c' = Some m" and lm: "lookup m cs' = Some n"
      by (auto split: option.splits)
    show ?thesis
    proof (cases "map_of es c")
      case None
      with 4(2) have t': "t' = Dir (es @ [(c, File b)])"
        by (auto split: if_splits)
      have "lookup t' p = Some n" using m lm by (simp add: t' Cons map_add_def)
      then show ?thesis by (auto split: node.splits)
    next
      case (Some k)
      with 4(2) obtain k' where k: "put k cs b = Inr k'" and t': "t' = Dir (AList.update c k' es)"
        by (auto split: sum.splits)
      show ?thesis
      proof (cases "c' = c")
        case True
        with m Some have mk: "m = k" by simp
        from True Cons 4(4) have "cs' \<noteq> cs" by simp
        with 4(1) [OF Some k] lm mk have
          "case n of File c \<Rightarrow> lookup k' cs' = Some (File c)
                   | Dir es \<Rightarrow> \<exists>es'. lookup k' cs' = Some (Dir es')" by simp
        moreover have "lookup t' p = lookup k' cs'" using True by (simp add: t' Cons update_conv')
        ultimately show ?thesis by (auto split: node.splits)
      next
        case False
        then have "lookup t' p = Some n" using m lm by (simp add: t' Cons update_conv')
        then show ?thesis by (auto split: node.splits)
      qed
    qed
  qed
qed

lemma put_new_entry:
  "put t (d @ [n]) b = Inr t' \<Longrightarrow> lookup t (d @ [n]) = None \<Longrightarrow>
   names (lookup t' d) = names (lookup t d) @ [n]"
proof (induction d arbitrary: t t')
  case Nil
  then show ?case
    by (cases t) (auto split: option.splits sum.splits)
next
  case (Cons c cs)
  from Cons.prems(1) obtain es where t: "t = Dir es" by (cases t) auto
  from Cons.prems(1) t obtain m where m: "map_of es c = Some m"
    by (auto split: option.splits if_splits)
  from Cons.prems(1) t m obtain m' where p: "put m (cs @ [n]) b = Inr m'"
    and t': "t' = Dir (AList.update c m' es)"
    by (auto split: sum.splits)
  from Cons.prems(2) t m have "lookup m (cs @ [n]) = None" by simp
  from Cons.IH [OF p this] show ?case using m by (simp add: t t' update_conv')
qed

lemma put_overwrite_names:
  "put t p b = Inr t' \<Longrightarrow> lookup t p \<noteq> None \<Longrightarrow> names (lookup t' q) = names (lookup t q)"
proof (induction t p b arbitrary: t' q rule: put.induct)
  case (1 old b)
  then show ?case by (cases q) auto
next
  case (2 es b)
  then show ?case by simp
next
  case (3 old c cs b)
  then show ?case by simp
next
  case (4 es c cs b)
  from 4(3) obtain k where k: "map_of es c = Some k" and lk: "lookup k cs \<noteq> None"
    by (auto split: option.splits)
  from 4(2) k obtain k' where pk: "put k cs b = Inr k'" and t': "t' = Dir (AList.update c k' es)"
    by (auto split: sum.splits)
  from k have cin: "c \<in> fst ` set es" by (auto dest: map_of_SomeD intro: rev_image_eqI)
  show ?case
  proof (cases q)
    case Nil
    then show ?thesis using cin by (simp add: t' update_keys)
  next
    case (Cons c' cs')
    show ?thesis
    proof (cases "c' = c")
      case True
      with 4(1) [OF k pk lk, of cs'] k show ?thesis by (simp add: t' Cons update_conv')
    next
      case False
      then show ?thesis by (simp add: t' Cons update_conv')
    qed
  qed
qed

lemma lookup_append:
  "lookup t (d @ [n]) = (case lookup t d of Some (Dir es) \<Rightarrow> map_of es n | _ \<Rightarrow> None)"
proof (induction t d rule: lookup.induct)
  case (1 n)
  then show ?case by (cases n) (auto split: option.splits)
qed (auto split: option.splits)

lemma writeFileSync_Inr:
  "writeFileSync w p b = (Inr u, w') \<Longrightarrow>
   put (tree w) p b = Inr (tree w') \<and> trace w' = trace w @ [WriteFile p True]"
  by (auto simp: writeFileSync_def split: sum.splits)

lemma writeFileSync_Inl:
  "writeFileSync w p b = (Inl e, w') \<Longrightarrow>
   tree w' = tree w \<and> trace w' = trace w @ [WriteFile p False]"
  by (auto simp: writeFileSync_def split: sum.splits)

lemma mkdirSync_Inr:
  "mkdirSync w p = (Inr u, w') \<Longrightarrow>
   mkdirp (tree w) p = Inr (tree w') \<and> trace w' = trace w @ [Mkdir p True]"
  by (auto simp: mkdirSync_def split: sum.splits)

lemma mkdirSync_Inl:
  "mkdirSync w p = (Inl e, w') \<Longrightarrow>
   tree w' = tree w \<and> trace w' = trace w @ [Mkdir p False]"
  by (auto simp: mkdirSync_def split: sum.splits)

lemma copyFileSync_Inr:
  "copyFileSync w src dst = (Inr u, w') \<Longrightarrow>
   \<exists>b. lookup (tree w) src = Some (File b) \<and> put (tree w) dst b = Inr (tree w') \<and>
       trace w' = trace w @ [CopyFile src dst True]"
  by (auto simp: copyFileSync_def split: option.splits node.splits sum.splits)

lemma copyFileSync_Inl:
  "copyFileSync w src dst = (Inl e, w') \<Longrightarrow>
   tree w' = tree w \<and> trace w' = trace w @ [CopyFile src dst False]"
  by (auto simp: copyFileSync_def split: option.splits node.splits sum.splits)

section \<open>Drawing sections\<close>

text \<open>
  The product of a double below \<open>1\<close> and a whole number \<open>M\<close> between \<open>2 ^ 26\<close> and
  \<open>2 ^ 27\<close> stays below \<open>M\<close> after the rounding: the exact product is at least
  \<open>M / 2 ^ 53\<close> below \<open>M\<close>, which is more than half the distance between the doubles
  next to \<open>M\<close>.
\<close>

lemma bitLength_le: "n < 2 ^ k \<Longrightarrow> bitLength n \<le> k"
proof (induction k arbitrary: n)
  case 0
  then show ?case by (subst bitLength.simps) simp
next
  case (Suc k)
  show ?case
  proof (cases "n = 0")
    case True
    then show ?thesis by (subst bitLength.simps) simp
  next
    case False
    from Suc.prems have "n div 2 < 2 ^ k" by simp
    from Suc.IH [OF this] False show ?thesis by (subst bitLength.simps) simp
  qed
qed

lemma roundDouble_below:
  assumes m: "m < 2 ^ 53" and e: "53 \<le> e" "e \<le> 1074" and M: "2 ^ 26 < M" "M < 2 ^ 27"
  shows "fst (roundDouble (m * M) e) div 2 ^ snd (roundDouble (m * M) e) < M"
proof -
  define n where "n = m * M"
  define s where "s = bitLength n - 53"
  define q where "q = n div 2 ^ s"
  define r where "r = n mod 2 ^ s"
  define q' where "q' = (if 2 ^ s < 2 * r \<or> (2 * r = 2 ^ s \<and> odd q) then q + 1 else q)"
  define K where "K = (2::nat) ^ 53"
  have Mpos: "0 < M" using M(1) by simp
  have nM: "n + M \<le> M * K"
  proof -
    from m have "m + 1 \<le> K" by (simp add: K_def)
    then have "(m + 1) * M \<le> K * M" by (rule mult_le_mono1)
    then show ?thesis by (simp add: n_def algebra_simps)
  qed
  have n80: "n < 2 ^ 80"
  proof -
    have "M * K \<le> 2 ^ 27 * K" using M(2) by (intro mult_le_mono1) simp
    also have "\<dots> = 2 ^ 80" by (simp add: K_def)
    finally have "M * K \<le> 2 ^ 80" .
    with nM Mpos show ?thesis by linarith
  qed
  have s27: "s \<le> 27" using bitLength_le [OF n80] by (simp add: s_def)
  have se: "s \<le> e" using s27 e by simp
  have mx: "max (bitLength n - 53) (e - 1074) = s" using e by (simp add: s_def)
  have rd: "roundDouble n e = (q', e - s)"
    unfolding roundDouble_def mx Let_def q'_def q_def r_def using se by simp
  have pw: "2 ^ (e - s) * 2 ^ s = (2::nat) ^ e" using se by (simp flip: power_add)
  have p53: "K \<le> 2 ^ e" unfolding K_def using e(1) by (rule power_increasing) simp
  have Me: "M * K \<le> M * 2 ^ e" using p53 by (rule mult_le_mono2)
  have eq: "M * 2 ^ (e - s) * 2 ^ s = M * 2 ^ e" unfolding mult.assoc pw ..
  have nlt: "n < M * 2 ^ (e - s) * 2 ^ s"
    unfolding eq using nM Mpos Me by linarith
  have qlt: "q < M * 2 ^ (e - s)" unfolding q_def using nlt by (rule less_mult_imp_div_less)
  have "q' < M * 2 ^ (e - s)"
  proof (cases "2 ^ s < 2 * r \<or> (2 * r = 2 ^ s \<and> odd q)")
    case False
    then have "q' = q" unfolding q'_def by (rule if_not_P)
    with qlt show ?thesis by simp
  next
    case True
    then have up: "q' = q + 1" unfolding q'_def by (rule if_P)
    from True have half: "2 ^ s \<le> 2 * r" by auto
    have "q + 1 \<noteq> M * 2 ^ (e - s)"
    proof
      assume "q + 1 = M * 2 ^ (e - s)"
      then have "(q + 1) * 2 ^ s = M * 2 ^ e" using eq by simp
      then have b: "q * 2 ^ s + 2 ^ s = M * 2 ^ e" by (simp add: algebra_simps)
      have nqr: "n = q * 2 ^ s + r" unfolding q_def r_def by (rule div_mult_mod_eq [symmetric])
      have "(2::nat) ^ s \<le> 2 ^ 27" using s27 by (rule power_increasing) simp
      with M(1) have c: "2 ^ s < 2 * M" by simp
      from half nqr b have "2 * (M * 2 ^ e) \<le> 2 * n + 2 ^ s" by linarith
      moreover from nM Me c have "2 * n + 2 ^ s < 2 * (M * 2 ^ e)" by linarith
      ultimately show False by simp
    qed
    with qlt up show ?thesis by simp
  qed
  then have "q' div 2 ^ (e - s) < M" by (simp add: less_mult_imp_div_less)
  with rd show ?thesis by (simp add: n_def)
qed

lemma sample_range:
  assumes "isUnitDouble (rnd k)"
  shows "0 \<le> sample rnd k \<and> sample rnd k < SECTION_MAX_VAL"
proof -
  obtain m e where me: "rnd k = (m, e)" by (cases "rnd k")
  with assms have h: "m < 2 ^ 53" "53 \<le> e" "e \<le> 1074" by (simp_all add: isUnitDouble_def)
  have "fst (roundDouble (m * 133769420) e) div 2 ^ snd (roundDouble (m * 133769420) e)
      < 133769420"
    by (rule roundDouble_below [OF h]) simp_all
  then show ?thesis
    by (simp add: sample_def Math_floor_def mulDouble_def fromInt_def me SECTION_MAX_VAL_def)
qed

text \<open>
  The rounding is that of the doubles and not the exact product: the exact product of
  \<open>567557283413514 / 2 ^ 53\<close> and \<open>133769420\<close> is a little below \<open>8429014\<close>, and the double
  nearest to it is \<open>8429014\<close>.
\<close>

lemma sample_rounds_up:
  "sample (\<lambda>k. (567557283413514, 53)) 0 = 8429014
   \<and> \<lfloor>(567557283413514 / 2 ^ 53 :: real) * 133769420\<rfloor> = 8429013"
proof -
  have a: "Math_floor (mulDouble (567557283413514, 53) (fromInt 133769420)) = 8429014"
    by (simp add: Math_floor_def mulDouble_def fromInt_def roundDouble_def bitLength.simps Let_def)
  have b: "\<lfloor>(567557283413514 / 2 ^ 53 :: real) * 133769420\<rfloor> = 8429013"
    by (simp add: floor_eq_iff)
  from a b show ?thesis by (simp add: sample_def SECTION_MAX_VAL_def)
qed

lemma generateScriptSection_fresh_at:
  "sample rnd (k + d) \<notin> set sections \<Longrightarrow>
   \<exists>j \<le> d. sample rnd (k + j) \<notin> set sections \<and>
     generateScriptSection rnd k sections = Some (sample rnd (k + j), Suc (k + j))"
proof (induction d arbitrary: k)
  case 0
  then show ?case
    by (subst generateScriptSection.simps) (simp add: sample_def Let_def)
next
  case (Suc d)
  show ?case
  proof (cases "sample rnd k \<in> set sections")
    case True
    from Suc.prems have "sample rnd (Suc k + d) \<notin> set sections" by simp
    from Suc.IH [OF this] obtain j where j: "j \<le> d" "sample rnd (Suc k + j) \<notin> set sections"
      "generateScriptSection rnd (Suc k) sections = Some (sample rnd (Suc k + j), Suc (Suc k + j))"
      by blast
    have "generateScriptSection rnd k sections = generateScriptSection rnd (Suc k) sections"
      using True by (subst generateScriptSection.simps) (simp add: sample_def Let_def)
    with j show ?thesis by (intro exI [of _ "Suc j"]) simp
  next
    case False
    then have "generateScriptSection rnd k sections = Some (sample rnd k, Suc k)"
      by (subst generateScriptSection.simps) (simp add: sample_def Let_def)
    with False show ?thesis by (intro exI [of _ 0]) simp
  qed
qed

lemma generateScriptSection_Some:
  assumes "generateScriptSection rnd k sections = Some r"
  shows "\<exists>j. snd r = Suc (k + j) \<and> fst r = sample rnd (k + j) \<and> fst r \<notin> set sections"
proof (rule generateScriptSection.raw_induct
    [where P = "\<lambda>rnd k sections r.
       \<exists>j. snd r = Suc (k + j) \<and> fst r = sample rnd (k + j) \<and> fst r \<notin> set sections",
     OF _ assms])
  fix f :: "(nat \<Rightarrow> double) \<Rightarrow> nat \<Rightarrow> int list \<Rightarrow> (int \<times> nat) option"
  fix rnd k sections r
  assume IH: "\<And>rnd k sections r. f rnd k sections = Some r \<Longrightarrow>
    \<exists>j. snd r = Suc (k + j) \<and> fst r = sample rnd (k + j) \<and> fst r \<notin> set sections"
  assume body: "(let section = Math_floor (mulDouble (rnd k) (fromInt SECTION_MAX_VAL))
      in if section \<in> set sections then f rnd (Suc k) sections else Some (section, Suc k)) = Some r"
  show "\<exists>j. snd r = Suc (k + j) \<and> fst r = sample rnd (k + j) \<and> fst r \<notin> set sections"
  proof (cases "sample rnd k \<in> set sections")
    case True
    with body have "f rnd (Suc k) sections = Some r" by (simp add: sample_def Let_def)
    from IH [OF this] obtain j where "snd r = Suc (Suc k + j)" "fst r = sample rnd (Suc k + j)"
      "fst r \<notin> set sections" by blast
    then show ?thesis by (intro exI [of _ "Suc j"]) simp
  next
    case False
    with body have "r = (sample rnd k, Suc k)" by (simp add: sample_def Let_def)
    with False show ?thesis by (intro exI [of _ 0]) simp
  qed
qed

lemma bundleLoop_entries:
  "bundleLoop env w scripts k sections = Some (Inr bundle) \<Longrightarrow>
   list_all2 (bundleEntry env w) bundle scripts \<and>
   (\<exists>secs. map sectionOf bundle = map JNum secs \<and> distinct secs \<and> set secs \<inter> set sections = {})"
proof (induction scripts arbitrary: k sections "bundle")
  case Nil
  then show ?case by simp
next
  case (Cons script scripts)
  from Cons.prems obtain sec k' where g: "generateScriptSection (random env) k sections = Some (sec, k')"
    by (auto split: option.splits)
  from Cons.prems g obtain contents where rd: "readFileSync w script = Inr contents"
    by (auto split: sum.splits)
  from Cons.prems g rd obtain rest where
    rest: "bundleLoop env w scripts k' (sections @ [sec]) = Some (Inr rest)"
    and b: "bundle = JArr [JNum sec, JStr (deformatScriptName script),
                JBuf (deflateSync env (utf8_encode env (utf8_decode env contents)))] # rest"
    by (auto simp: Let_def split: option.splits sum.splits)
  from Cons.IH [OF rest] obtain secs where
    ih: "list_all2 (bundleEntry env w) rest scripts" "map sectionOf rest = map JNum secs"
      "distinct secs" "set secs \<inter> set (sections @ [sec]) = {}"
    by blast
  from generateScriptSection_Some [OF g] have fresh: "sec \<notin> set sections" by auto
  have e: "bundleEntry env w (JArr [JNum sec, JStr (deformatScriptName script),
                JBuf (deflateSync env (utf8_encode env (utf8_decode env contents)))]) script"
    unfolding bundleEntry_def using rd by blast
  have "map sectionOf bundle = map JNum (sec # secs)" using b ih(2) by simp
  moreover have "distinct (sec # secs)" using ih(3,4) by auto
  moreover have "set (sec # secs) \<inter> set sections = {}" using ih(4) fresh by auto
  ultimately show ?case using b e ih(1) by blast
qed

lemma bundleLoop_sampled:
  "bundleLoop env w scripts k sections = Some (Inr bnd) \<Longrightarrow>
   list_all (\<lambda>entry. \<exists>j. sectionOf entry = JNum (sample (random env) j)) bnd"
proof (induction scripts arbitrary: k sections bnd)
  case Nil
  then show ?case by simp
next
  case (Cons script scripts)
  from Cons.prems obtain sec k' where g: "generateScriptSection (random env) k sections = Some (sec, k')"
    by (auto split: option.splits)
  from Cons.prems g obtain contents where rd: "readFileSync w script = Inr contents"
    by (auto split: sum.splits)
  from Cons.prems g rd obtain rest where
    rest: "bundleLoop env w scripts k' (sections @ [sec]) = Some (Inr rest)"
    and b: "bnd = JArr [JNum sec, JStr (deformatScriptName script),
                JBuf (deflateSync env (utf8_encode env (utf8_decode env contents)))] # rest"
    by (auto simp: Let_def split: option.splits sum.splits)
  from generateScriptSection_Some [OF g] obtain j where "sec = sample (random env) (k + j)" by auto
  with Cons.IH [OF rest] b show ?case by auto
qed

lemma createBundleFile_written:
  assumes "createBundleFile env w scriptsFolder destination = Some (Inr r, w')"
  shows "\<exists>scripts bnd.
     readDirectory w scriptsFolder True (filter (\<lambda>entry. isRubyScript w entry)) = Inr scripts \<and>
     bundleLoop env w scripts 0 [LOADER_SCRIPT_SECTION] = Some (Inr bnd) \<and>
     readFileSync w' destination = Inr (marshal_dump env (JArr bnd)) \<and>
     r = BUNDLE_CREATED"
proof -
  from assms have ex: "existsSync w scriptsFolder"
    by (auto simp: createBundleFile_def split: if_splits)
  from assms ex obtain scripts where
    sc: "readDirectory w scriptsFolder True (filter (\<lambda>entry. isRubyScript w entry)) = Inr scripts"
    by (auto simp: createBundleFile_def Let_def split: sum.splits)
  from assms ex sc obtain bnd where
    bl: "bundleLoop env w scripts 0 [LOADER_SCRIPT_SECTION] = Some (Inr bnd)"
    by (auto simp: createBundleFile_def Let_def split: option.splits sum.splits)
  from assms ex sc bl have
    wr: "writeFileSync w destination (marshal_dump env (JArr bnd)) = (Inr (), w')" and r: "r = BUNDLE_CREATED"
    by (auto simp: createBundleFile_def Let_def split: prod.splits sum.splits)
  from wr obtain t where "put (tree w) destination (marshal_dump env (JArr bnd)) = Inr t" "tree w' = t"
    by (auto simp: writeFileSync_def split: sum.splits)
  then have "readFileSync w' destination = Inr (marshal_dump env (JArr bnd))"
    using put_lookup by (simp add: readFileSync_def)
  with sc bl r show ?thesis by blast
qed

section \<open>Checking whether a bundle was extracted\<close>

lemma checkValidExtraction_numbers:
  "list_all (\<lambda>script. isNumber (fst script)) bundle \<Longrightarrow>
   checkValidExtraction bundle = (\<exists>script \<in> set bundle. \<not> isLoaderScript (fst script))"
  by (induction "bundle") (auto simp: checkValidExtraction_def)

text \<open>
  What \<^verbatim>\<open>checkValidExtraction\<close> computes, with the loader's section written out: some
  script has a number other than \<open>133769420\<close> as its section.
\<close>

lemma checkValidExtraction_iff:
  "checkValidExtraction bnd =
     (\<exists>script \<in> set bnd. \<exists>n. fst script = JNum n \<and> n \<noteq> 133769420)"
proof -
  have "(if isLoaderScript v then False else if isNumber v then True else False) =
        (\<exists>n. v = JNum n \<and> n \<noteq> 133769420)" for v
    by (cases v) (simp_all add: isLoaderScript_def LOADER_SCRIPT_SECTION_def)
  then show ?thesis
    by (simp add: checkValidExtraction_def list_ex_iff Let_def)
qed

text \<open>
  Claim C6. For a bundle file that decodes, \<^verbatim>\<open>checkExtractedScripts\<close> returns
  \<^verbatim>\<open>SCRIPTS_NOT_EXTRACTED\<close> if and only if some script of the bundle has a number other than
  the reserved \<open>133769420\<close> as its section, and \<^verbatim>\<open>SCRIPTS_EXTRACTED\<close> otherwise. When all
  sections are numbers, as the data model has them, this is: \<^verbatim>\<open>SCRIPTS_NOT_EXTRACTED\<close> if
  and only if some section is not the reserved one, and \<^verbatim>\<open>SCRIPTS_EXTRACTED\<close> if and only
  if every section is the reserved one.
\<close>

theorem checkExtractedScripts_iff:
  assumes "readBundleFile env w bundleFile = Inr bnd"
  shows "(checkExtractedScripts env w bundleFile = Inr SCRIPTS_NOT_EXTRACTED
            \<longleftrightarrow> (\<exists>script \<in> set bnd. \<exists>n. fst script = JNum n \<and> n \<noteq> 133769420))
       \<and> (checkExtractedScripts env w bundleFile = Inr SCRIPTS_EXTRACTED
            \<longleftrightarrow> \<not> (\<exists>script \<in> set bnd. \<exists>n. fst script = JNum n \<and> n \<noteq> 133769420))
       \<and> (list_all (\<lambda>script. \<exists>n. fst script = JNum n) bnd \<longrightarrow>
            (checkExtractedScripts env w bundleFile = Inr SCRIPTS_NOT_EXTRACTED
               \<longleftrightarrow> (\<exists>script \<in> set bnd. fst script \<noteq> JNum 133769420))
            \<and> (checkExtractedScripts env w bundleFile = Inr SCRIPTS_EXTRACTED
               \<longleftrightarrow> (\<forall>script \<in> set bnd. fst script = JNum 133769420)))"
proof -
  have a: "checkExtractedScripts env w bundleFile =
      (if \<exists>script \<in> set bnd. \<exists>n. fst script = JNum n \<and> n \<noteq> 133769420
       then Inr SCRIPTS_NOT_EXTRACTED else Inr SCRIPTS_EXTRACTED)"
    using assms by (simp add: checkExtractedScripts_def checkValidExtraction_iff)
  have b: "SCRIPTS_NOT_EXTRACTED \<noteq> SCRIPTS_EXTRACTED"
    by (simp add: SCRIPTS_NOT_EXTRACTED_def SCRIPTS_EXTRACTED_def)
  have c: "(\<exists>script \<in> set bnd. \<exists>n. fst script = JNum n \<and> n \<noteq> 133769420) =
      (\<exists>script \<in> set bnd. fst script \<noteq> JNum 133769420)"
    if nums: "list_all (\<lambda>script. \<exists>n. fst script = JNum n) bnd"
  proof
    assume "\<exists>script \<in> set bnd. \<exists>n. fst script = JNum n \<and> n \<noteq> 133769420"
    then obtain script n where s: "script \<in> set bnd" "fst script = JNum n" "n \<noteq> 133769420"
      by blast
    from s(2,3) have "fst script \<noteq> JNum 133769420" by simp
    with s(1) show "\<exists>script \<in> set bnd. fst script \<noteq> JNum 133769420" by blast
  next
    assume "\<exists>script \<in> set bnd. fst script \<noteq> JNum 133769420"
    then obtain script where s: "script \<in> set bnd" "fst script \<noteq> JNum 133769420" by blast
    from nums s(1) obtain n where "fst script = JNum n" unfolding list_all_iff by blast
    with s(2) have "fst script = JNum n \<and> n \<noteq> 133769420" by auto
    with s(1) show "\<exists>script \<in> set bnd. \<exists>n. fst script = JNum n \<and> n \<noteq> 133769420" by blast
  qed
  from a b c show ?thesis by auto
qed

text \<open>
  The example bundle with two scripts beside the loader is not extracted; the bundle
  with the loader only is extracted; and so is the bundle whose only section is a
  string, which the \<^verbatim>\<open>typeof\<close> test passes over.
\<close>

theorem checkExtractedScripts_iff_witness:
  "checkExtractedScripts ex_env ex_world ex_bundle_path = Inr SCRIPTS_NOT_EXTRACTED
   \<and> checkExtractedScripts ex_env ex_loader_world ex_bundle_path = Inr SCRIPTS_EXTRACTED
   \<and> checkExtractedScripts ex_env ex_odd_world ex_bundle_path = Inr SCRIPTS_EXTRACTED"
proof -
  note a = checkExtractedScripts_iff [OF ex_read_bundle]
  note b = checkExtractedScripts_iff [OF ex_read_loader_bundle]
  note c = checkExtractedScripts_iff [OF ex_read_odd_bundle]
  from a have 1: "checkExtractedScripts ex_env ex_world ex_bundle_path = Inr SCRIPTS_NOT_EXTRACTED"
    by (simp add: LOADER_SCRIPT_SECTION_def)
  from b have 2: "checkExtractedScripts ex_env ex_loader_world ex_bundle_path = Inr SCRIPTS_EXTRACTED"
    by (simp add: LOADER_SCRIPT_SECTION_def)
  from c have 3: "checkExtractedScripts ex_env ex_odd_world ex_bundle_path = Inr SCRIPTS_EXTRACTED"
    by simp
  from 1 2 3 show ?thesis by simp
qed

section \<open>Sections are unique\<close>

text \<open>
  Claim C9. Let every sample of \<^verbatim>\<open>Math.random\<close> be a double in \<open>[0, 1)\<close>; the section of a
  sample is the floor of its product with \<^verbatim>\<open>SECTION_MAX_VAL\<close>, a product of doubles. If
  some sample from the \<open>k\<close>-th on gives a section that is not in the supplied list (which
  needs the list not to cover the whole range, and holds with probability one then),
  \<^verbatim>\<open>generateScriptSection\<close> returns: its value is in \<open>[0, SECTION_MAX_VAL)\<close>, is not in the
  list and is not the loader's section. And the sections of the bundle that a run of
  \<^verbatim>\<open>createBundleFile\<close> writes are pairwise distinct, differ from the loader's section and
  lie in the range.
\<close>

theorem generateScriptSection_unique:
  assumes "\<forall>k. isUnitDouble (random env k)"
  shows "(sample (random env) (k + d) \<notin> set sections \<longrightarrow>
          (\<exists>sec k'. generateScriptSection (random env) k sections = Some (sec, k') \<and>
             0 \<le> sec \<and> sec < SECTION_MAX_VAL \<and> sec \<notin> set sections \<and>
             sec \<noteq> LOADER_SCRIPT_SECTION))
       \<and> (createBundleFile env w scriptsFolder destination = Some (Inr r, w') \<longrightarrow>
          (\<exists>bnd secs. readFileSync w' destination = Inr (marshal_dump env (JArr bnd)) \<and>
             map sectionOf bnd = map JNum secs \<and> distinct secs \<and>
             LOADER_SCRIPT_SECTION \<notin> set secs \<and>
             list_all (\<lambda>sec. 0 \<le> sec \<and> sec < SECTION_MAX_VAL) secs))"
proof (intro conjI impI)
  assume "sample (random env) (k + d) \<notin> set sections"
  from generateScriptSection_fresh_at [OF this] obtain j where
    j: "sample (random env) (k + j) \<notin> set sections"
      "generateScriptSection (random env) k sections =
         Some (sample (random env) (k + j), Suc (k + j))"
    by blast
  from assms sample_range [of "random env" "k + j"] have
    rg: "0 \<le> sample (random env) (k + j)" "sample (random env) (k + j) < SECTION_MAX_VAL"
    by auto
  then have "sample (random env) (k + j) \<noteq> LOADER_SCRIPT_SECTION"
    by (simp add: LOADER_SCRIPT_SECTION_def SECTION_MAX_VAL_def)
  with j rg show "\<exists>sec k'. generateScriptSection (random env) k sections = Some (sec, k') \<and>
             0 \<le> sec \<and> sec < SECTION_MAX_VAL \<and> sec \<notin> set sections \<and>
             sec \<noteq> LOADER_SCRIPT_SECTION"
    by blast
next
  assume "createBundleFile env w scriptsFolder destination = Some (Inr r, w')"
  from createBundleFile_written [OF this] obtain scripts bnd where
    bl: "bundleLoop env w scripts 0 [LOADER_SCRIPT_SECTION] = Some (Inr bnd)"
    and rd: "readFileSync w' destination = Inr (marshal_dump env (JArr bnd))"
    by blast
  from bundleLoop_entries [OF bl] obtain secs where
    secs: "map sectionOf bnd = map JNum secs" "distinct secs"
      "set secs \<inter> set [LOADER_SCRIPT_SECTION] = {}"
    by blast
  have "list_all (\<lambda>sec. 0 \<le> sec \<and> sec < SECTION_MAX_VAL) secs"
    unfolding list_all_iff
  proof
    fix sec assume "sec \<in> set secs"
    then have "JNum sec \<in> set (map sectionOf bnd)" using secs(1) by simp
    then obtain entry where "entry \<in> set bnd" "sectionOf entry = JNum sec" by auto
    with bundleLoop_sampled [OF bl] obtain j where "sec = sample (random env) j"
      unfolding list_all_iff by fastforce
    with assms sample_range [of "random env" j] show "0 \<le> sec \<and> sec < SECTION_MAX_VAL" by auto
  qed
  with secs rd show "\<exists>bnd secs. readFileSync w' destination = Inr (marshal_dump env (JArr bnd)) \<and>
             map sectionOf bnd = map JNum secs \<and> distinct secs \<and>
             LOADER_SCRIPT_SECTION \<notin> set secs \<and>
             list_all (\<lambda>sec. 0 \<le> sec \<and> sec < SECTION_MAX_VAL) secs"
    by auto
qed


text \<open>
  A call whose first sample gives a section of the list and whose second sample is
  fresh: it draws twice. And the build of the example scripts folder in which the
  second script draws the section of the first and draws again: its two sections are
  \<open>66884710\<close> and \<open>33442355\<close>.
\<close>

theorem generateScriptSection_unique_witness:
  "generateScriptSection (random ex_retry_env) 1 [LOADER_SCRIPT_SECTION, 66884710] =
     Some (33442355, 3)
   \<and> sample (random ex_retry_env) 1 \<in> set [LOADER_SCRIPT_SECTION, 66884710]
   \<and> (\<exists>sec k'. generateScriptSection (random ex_retry_env) 1
          [LOADER_SCRIPT_SECTION, 66884710] = Some (sec, k') \<and>
       0 \<le> sec \<and> sec < SECTION_MAX_VAL \<and> sec \<notin> set [LOADER_SCRIPT_SECTION, 66884710] \<and>
       sec \<noteq> LOADER_SCRIPT_SECTION)
   \<and> createBundleFile ex_retry_env ex_scripts_world ex_scripts_folder ex_bundle_path =
       Some (Inr BUNDLE_CREATED, ex_retry_world)
   \<and> (\<exists>bnd secs. readFileSync ex_retry_world ex_bundle_path =
          Inr (marshal_dump ex_retry_env (JArr bnd)) \<and>
        map sectionOf bnd = map JNum secs \<and> distinct secs \<and>
        LOADER_SCRIPT_SECTION \<notin> set secs \<and>
        list_all (\<lambda>sec. 0 \<le> sec \<and> sec < SECTION_MAX_VAL) secs)"
proof -
  have rng: "\<forall>k. isUnitDouble (random ex_retry_env k)"
    by (simp add: ex_retry_env_def isUnitDouble_def)
  have taken: "sample (random ex_retry_env) 1 \<in> set [LOADER_SCRIPT_SECTION, 66884710]"
    by (simp add: sample_def ex_retry_random ex_random)
  have fresh: "sample (random ex_retry_env) (1 + 1) \<notin> set [LOADER_SCRIPT_SECTION, 66884710]"
    by (simp add: sample_def ex_retry_random ex_random LOADER_SCRIPT_SECTION_def)
  have run: "generateScriptSection (random ex_retry_env) 1 [LOADER_SCRIPT_SECTION, 66884710] =
     Some (33442355, 3)"
    using ex_retry_sample_1 by simp
  from generateScriptSection_unique [OF rng, of 1 1 "[LOADER_SCRIPT_SECTION, 66884710]"
      ex_scripts_world ex_scripts_folder ex_bundle_path BUNDLE_CREATED ex_retry_world]
    fresh ex_retry_build
  have "(\<exists>sec k'. generateScriptSection (random ex_retry_env) 1
          [LOADER_SCRIPT_SECTION, 66884710] = Some (sec, k') \<and>
       0 \<le> sec \<and> sec < SECTION_MAX_VAL \<and> sec \<notin> set [LOADER_SCRIPT_SECTION, 66884710] \<and>
       sec \<noteq> LOADER_SCRIPT_SECTION)
   \<and> (\<exists>bnd secs. readFileSync ex_retry_world ex_bundle_path =
          Inr (marshal_dump ex_retry_env (JArr bnd)) \<and>
        map sectionOf bnd = map JNum secs \<and> distinct secs \<and>
        LOADER_SCRIPT_SECTION \<notin> set secs \<and>
        list_all (\<lambda>sec. 0 \<le> sec \<and> sec < SECTION_MAX_VAL) secs)"
    by blast
  with run taken ex_retry_build show ?thesis by blast
qed

section \<open>What the builder stores\<close>

text \<open>
  Claim C4, as the code has it. When \<^verbatim>\<open>createBundleFile\<close> succeeds, the file at the
  destination is the dump of an array with one entry per listed script, in the order of
  the listing, and the entry of a script holds the compressed text of the file exactly
  as it was read: \<^verbatim>\<open>createBundleFile\<close> does not call \<^verbatim>\<open>processScriptCode\<close>, so no
  encoding pragma is added, whether or not the text has one.
\<close>

theorem createBundleFile_stores_text:
  assumes "createBundleFile env w scriptsFolder destination = Some (Inr r, w')"
  shows "\<exists>scripts bnd.
     readDirectory w scriptsFolder True (filter (\<lambda>entry. isRubyScript w entry)) = Inr scripts \<and>
     readFileSync w' destination = Inr (marshal_dump env (JArr bnd)) \<and>
     list_all2 (bundleEntry env w) bnd scripts"
proof -
  from createBundleFile_written [OF assms] obtain scripts bnd where
    a: "readDirectory w scriptsFolder True (filter (\<lambda>entry. isRubyScript w entry)) = Inr scripts"
      "bundleLoop env w scripts 0 [LOADER_SCRIPT_SECTION] = Some (Inr bnd)"
      "readFileSync w' destination = Inr (marshal_dump env (JArr bnd))"
    by blast
  from bundleLoop_entries [OF a(2)] have "list_all2 (bundleEntry env w) bnd scripts" by simp
  with a show ?thesis by blast
qed

theorem createBundleFile_stores_text_witness:
  "\<exists>scripts bnd.
     readDirectory ex_scripts_world ex_scripts_folder True
       (filter (\<lambda>entry. isRubyScript ex_scripts_world entry)) = Inr scripts \<and>
     readFileSync ex_built_world ex_bundle_path = Inr (marshal_dump ex_env (JArr bnd)) \<and>
     list_all2 (bundleEntry ex_env ex_scripts_world) bnd scripts"
  using createBundleFile_stores_text [OF ex_build] .

text \<open>
  The claim as it was stated fails on the example scripts folder: the file
  \<^verbatim>\<open>Main.rb\<close> holds \<^verbatim>\<open>puts 1\<close> without the pragma, and the bundle built from it decodes to
  the code \<^verbatim>\<open>puts 1\<close>, which is not the text with the pragma prepended.
\<close>

theorem createBundleFile_no_pragma_counterexample:
  "createBundleFile ex_env ex_scripts_world ex_scripts_folder ex_bundle_path =
     Some (Inr BUNDLE_CREATED, ex_built_world)
   \<and> readFileSync ex_scripts_world [js ''Scripts'', js ''Main.rb''] =
       Inr (utf8_encode ex_env (js ''puts 1''))
   \<and> readBundleFile ex_env ex_built_world ex_bundle_path =
       Inr [(JNum 0, js ''Main'', js ''puts 1''),
            (JNum 66884710, js '' Util'', js ''# encoding: utf-8'' @ [10] @ js ''puts 2'')]
   \<and> processScriptCode (js ''puts 1'') = js ''# encoding: utf-8'' @ [10] @ js ''puts 1''
   \<and> js ''puts 1'' \<noteq> processScriptCode (js ''puts 1'')"
proof -
  have p: "processScriptCode (js ''puts 1'') = js ''# encoding: utf-8'' @ [10] @ js ''puts 1''"
    by (simp add: processScriptCode_def js_def startsWith_def)
  have q: "js ''puts 1'' \<noteq> js ''# encoding: utf-8'' @ [10] @ js ''puts 1''"
    by (simp add: js_def)
  have r: "readFileSync ex_scripts_world [js ''Scripts'', js ''Main.rb''] =
       Inr (utf8_encode ex_env (js ''puts 1''))"
    by (simp add: ex_read_main ex_env_def)
  show ?thesis using ex_build ex_read_built p q r by simp
qed

section \<open>The UTF-8 conversions\<close>

text \<open>
  Decoding the encoding of a well-formed string gives the string back: code point by
  code point first, for the sequences of one to four bytes.
\<close>

lemma decode_1: "b < 128 \<Longrightarrow> decodeBytes (b # r) = b # decodeBytes r"
  by (simp add: decodeBytes.simps(2))

lemma decode_2:
  "194 \<le> b \<Longrightarrow> b \<le> 223 \<Longrightarrow> isCont b1 \<Longrightarrow>
   decodeBytes (b # b1 # r) = ((b - 192) * 64 + (b1 - 128)) # decodeBytes r"
  by (simp add: decodeBytes.simps(2))

lemma decode_3:
  "224 \<le> b \<Longrightarrow> b \<le> 239 \<Longrightarrow> (if b = 224 then 160 else 128) \<le> b1 \<Longrightarrow>
   b1 \<le> (if b = 237 then 159 else 191) \<Longrightarrow> isCont b2 \<Longrightarrow>
   decodeBytes (b # b1 # b2 # r) =
     ((b - 224) * 4096 + (b1 - 128) * 64 + (b2 - 128)) # decodeBytes r"
  by (simp add: decodeBytes.simps(2))

lemma decode_4:
  "240 \<le> b \<Longrightarrow> b \<le> 244 \<Longrightarrow> (if b = 240 then 144 else 128) \<le> b1 \<Longrightarrow>
   b1 \<le> (if b = 244 then 143 else 191) \<Longrightarrow> isCont b2 \<Longrightarrow> isCont b3 \<Longrightarrow>
   decodeBytes (b # b1 # b2 # b3 # r) =
     surrogates ((b - 240) * 262144 + (b1 - 128) * 4096 + (b2 - 128) * 64 + (b3 - 128))
       @ decodeBytes r"
  by (simp add: decodeBytes.simps(2))

lemma roundtrip_1: "cp < 128 \<Longrightarrow> decodeBytes (encodeCodePoint cp @ r) = cp # decodeBytes r"
  by (simp add: encodeCodePoint_def decode_1)

lemma roundtrip_2:
  assumes "128 \<le> cp" "cp < 2048"
  shows "decodeBytes (encodeCodePoint cp @ r) = cp # decodeBytes r"
proof -
  have a: "194 \<le> 192 + cp div 64" "192 + cp div 64 \<le> 223" using assms by simp_all
  have b: "isCont (128 + cp mod 64)" by (simp add: isCont_def)
  have c: "(192 + cp div 64 - 192) * 64 + (128 + cp mod 64 - 128) = cp" by simp
  from assms have "encodeCodePoint cp = [192 + cp div 64, 128 + cp mod 64]"
    by (simp add: encodeCodePoint_def)
  with decode_2 [OF a b, of r] c show ?thesis by simp
qed

lemma mod_window:
  fixes x :: nat
  assumes "k * 64 \<le> x" "x < k * 64 + 64"
  shows "x mod 64 = x - k * 64"
proof -
  from assms(1) have "x = (x - k * 64) + k * 64" by simp
  then have "x mod 64 = ((x - k * 64) + k * 64) mod 64" by simp
  also have "\<dots> = (x - k * 64) mod 64" by (rule mod_mult_self1)
  also have "\<dots> = x - k * 64" using assms(2) by simp
  finally show ?thesis .
qed

lemma digits_64:
  fixes cp :: nat
  shows "cp div 4096 * 4096 + cp div 64 mod 64 * 64 + cp mod 64 = cp"
proof -
  have "cp div 4096 = cp div 64 div 64" by (simp add: div_mult2_eq)
  then have "cp div 4096 * 64 + cp div 64 mod 64 = cp div 64" by simp
  then have "(cp div 4096 * 64 + cp div 64 mod 64) * 64 + cp mod 64 = cp" by simp
  then show ?thesis by (simp add: algebra_simps)
qed

lemma digits_4096:
  fixes cp :: nat
  shows "cp div 262144 * 262144 + cp div 4096 mod 64 * 4096 + cp div 64 mod 64 * 64 + cp mod 64
     = cp"
proof -
  have "cp div 262144 = cp div 4096 div 64" by (simp add: div_mult2_eq)
  then have "cp div 262144 * 64 + cp div 4096 mod 64 = cp div 4096" by simp
  then have "(cp div 262144 * 64 + cp div 4096 mod 64) * 4096 + cp div 64 mod 64 * 64 + cp mod 64
      = cp div 4096 * 4096 + cp div 64 mod 64 * 64 + cp mod 64" by simp
  also have "\<dots> = cp" by (rule digits_64)
  finally show ?thesis by (simp add: algebra_simps)
qed

lemma roundtrip_3:
  assumes "2048 \<le> cp" "cp < 65536" "\<not> isHigh cp" "\<not> isLow cp"
  shows "decodeBytes (encodeCodePoint cp @ r) = cp # decodeBytes r"
proof -
  define b0 where "b0 = 224 + cp div 4096"
  define b1 where "b1 = 128 + cp div 64 mod 64"
  define b2 where "b2 = 128 + cp mod 64"
  have a: "224 \<le> b0" "b0 \<le> 239" using assms by (simp_all add: b0_def)
  have lo: "(if b0 = 224 then 160 else 128) \<le> b1"
  proof (cases "b0 = 224")
    case True
    then have "cp < 4096" by (simp add: b0_def)
    with assms(1) have "32 \<le> cp div 64" "cp div 64 < 64" by simp_all
    then have "cp div 64 mod 64 = cp div 64" by simp
    with \<open>32 \<le> cp div 64\<close> True show ?thesis by (simp add: b1_def)
  next
    case False
    then show ?thesis by (simp add: b1_def)
  qed
  have hi: "b1 \<le> (if b0 = 237 then 159 else 191)"
  proof (cases "b0 = 237")
    case True
    then have d: "cp div 4096 = 13" by (simp add: b0_def)
    have "cp div 4096 * 4096 \<le> cp" by simp
    with d have l: "53248 \<le> cp" by simp
    have "cp < 57344"
    proof (rule ccontr)
      assume "\<not> cp < 57344"
      then have "14 * 4096 \<le> cp" by simp
      then have "14 \<le> cp div 4096" by (simp add: less_eq_div_iff_mult_less_eq)
      with d show False by simp
    qed
    with assms(3,4) have u: "cp < 55296" by (simp add: isHigh_def isLow_def)
    from l have x1: "13 * 64 \<le> cp div 64" by (simp add: less_eq_div_iff_mult_less_eq)
    from u have x2: "cp div 64 < 13 * 64 + 32" by (simp add: less_mult_imp_div_less)
    then have "cp div 64 < 13 * 64 + 64" by simp
    from mod_window [OF x1 this] x2 have "cp div 64 mod 64 < 32" by simp
    with True show ?thesis by (simp add: b1_def)
  next
    case False
    have "cp div 64 mod 64 < 64" by simp
    with False show ?thesis by (simp add: b1_def)
  qed
  have c2: "isCont b2" by (simp add: isCont_def b2_def)
  have v: "(b0 - 224) * 4096 + (b1 - 128) * 64 + (b2 - 128) = cp"
    unfolding b0_def b1_def b2_def using digits_64 [of cp] by simp
  from assms have "encodeCodePoint cp = [b0, b1, b2]"
    by (simp add: encodeCodePoint_def b0_def b1_def b2_def)
  with decode_3 [OF a lo hi c2, of r] v show ?thesis by simp
qed

lemma roundtrip_4:
  assumes "65536 \<le> cp" "cp < 1114112"
  shows "decodeBytes (encodeCodePoint cp @ r) = surrogates cp @ decodeBytes r"
proof -
  define b0 where "b0 = 240 + cp div 262144"
  define b1 where "b1 = 128 + cp div 4096 mod 64"
  define b2 where "b2 = 128 + cp div 64 mod 64"
  define b3 where "b3 = 128 + cp mod 64"
  from assms(2) have "cp div 262144 < 5" by (simp add: less_mult_imp_div_less)
  then have a: "240 \<le> b0" "b0 \<le> 244" by (simp_all add: b0_def)
  have lo: "(if b0 = 240 then 144 else 128) \<le> b1"
  proof (cases "b0 = 240")
    case True
    then have "cp < 262144" by (simp add: b0_def)
    then have "cp div 4096 < 64" by (simp add: less_mult_imp_div_less)
    then have "cp div 4096 mod 64 = cp div 4096" by simp
    moreover from assms(1) have "16 \<le> cp div 4096" by (simp add: less_eq_div_iff_mult_less_eq)
    ultimately show ?thesis using True by (simp add: b1_def)
  next
    case False
    then show ?thesis by (simp add: b1_def)
  qed
  have hi: "b1 \<le> (if b0 = 244 then 143 else 191)"
  proof (cases "b0 = 244")
    case True
    then have d: "cp div 262144 = 4" by (simp add: b0_def)
    have "cp div 262144 * 262144 \<le> cp" by simp
    with d have "4 * 64 * 4096 \<le> cp" by simp
    then have x1: "4 * 64 \<le> cp div 4096" by (simp add: less_eq_div_iff_mult_less_eq)
    from assms(2) have x2: "cp div 4096 < 4 * 64 + 16" by (simp add: less_mult_imp_div_less)
    then have "cp div 4096 < 4 * 64 + 64" by simp
    from mod_window [OF x1 this] x2 have "cp div 4096 mod 64 < 16" by simp
    with True show ?thesis by (simp add: b1_def)
  next
    case False
    have "cp div 4096 mod 64 < 64" by simp
    with False show ?thesis by (simp add: b1_def)
  qed
  have c2: "isCont b2" by (simp add: isCont_def b2_def)
  have c3: "isCont b3" by (simp add: isCont_def b3_def)
  have v: "(b0 - 240) * 262144 + (b1 - 128) * 4096 + (b2 - 128) * 64 + (b3 - 128) = cp"
    unfolding b0_def b1_def b2_def b3_def using digits_4096 [of cp] by simp
  from assms have "encodeCodePoint cp = [b0, b1, b2, b3]"
    by (simp add: encodeCodePoint_def b0_def b1_def b2_def b3_def)
  with decode_4 [OF a lo hi c2 c3, of r] v show ?thesis by simp
qed


lemma roundtrip_unit:
  assumes "cp < 65536" "\<not> isHigh cp" "\<not> isLow cp"
  shows "decodeBytes (encodeCodePoint cp @ r) = cp # decodeBytes r"
proof (cases "cp < 128")
  case True
  then show ?thesis by (rule roundtrip_1)
next
  case False
  show ?thesis
  proof (cases "cp < 2048")
    case True
    with False show ?thesis by (intro roundtrip_2) simp_all
  next
    case False
    with assms show ?thesis by (intro roundtrip_3) simp_all
  qed
qed

lemma roundtrip_pair:
  assumes "isHigh c" "isLow d"
  shows "decodeBytes (encodeCodePoint (65536 + (c - 55296) * 1024 + (d - 56320)) @ r) =
           c # d # decodeBytes r"
proof -
  define cp where "cp = 65536 + (c - 55296) * 1024 + (d - 56320)"
  from assms have h: "c - 55296 < 1024" "d - 56320 < 1024" "55296 \<le> c" "56320 \<le> d"
    unfolding isHigh_def isLow_def by linarith+
  have a: "65536 \<le> cp" by (simp add: cp_def)
  from h(1) have "(c - 55296) * 1024 \<le> 1023 * 1024" by simp
  with h(2) have b: "cp < 1114112" by (simp add: cp_def)
  have "(cp - 65536) div 1024 = c - 55296" "(cp - 65536) mod 1024 = d - 56320"
    using h(2) by (simp_all add: cp_def)
  with h(3,4) have "surrogates cp = [c, d]" by (simp add: surrogates_def)
  with roundtrip_4 [OF a b, of r] show ?thesis by (simp add: cp_def)
qed

lemma decodeBytes_encodeUnits: "wellFormed s \<Longrightarrow> decodeBytes (encodeUnits s) = s"
proof (induction s rule: encodeUnits.induct)
  case 1
  then show ?case by simp
next
  case (2 c)
  then have "decodeBytes (encodeCodePoint c @ []) = c # decodeBytes []"
    by (intro roundtrip_unit) simp_all
  with 2 show ?case by simp
next
  case (3 c d cs)
  show ?case
  proof (cases "isHigh c")
    case True
    with 3(3) have l: "isLow d" and w: "wellFormed cs" by simp_all
    from True l 3(1) w have "decodeBytes (encodeUnits cs) = cs" by simp
    with roundtrip_pair [OF True l, of "encodeUnits cs"] True l show ?thesis by simp
  next
    case False
    with 3(3) have u: "c < 65536" "\<not> isLow c" and w: "wellFormed (d # cs)" by simp_all
    from False 3(2) w have "decodeBytes (encodeUnits (d # cs)) = d # cs" by simp
    with roundtrip_unit [OF u(1) False u(2), of "encodeUnits (d # cs)"] False u
    show ?thesis by simp
  qed
qed

lemma encodeCodePoint_bytes: "cp < 1114112 \<Longrightarrow> list_all (\<lambda>b. b < 256) (encodeCodePoint cp)"
proof -
  assume a: "cp < 1114112"
  have m: "128 + x mod 64 < 256" for x :: nat
  proof -
    have "x mod 64 < 64" by simp
    then show ?thesis by linarith
  qed
  have 1: "cp < 2048 \<Longrightarrow> 192 + cp div 64 < 256"
  proof -
    assume "cp < 2048"
    then have "cp div 64 < 32" by (simp add: less_mult_imp_div_less)
    then show ?thesis by simp
  qed
  have 2: "cp < 65536 \<Longrightarrow> 224 + cp div 4096 < 256"
  proof -
    assume "cp < 65536"
    then have "cp div 4096 < 16" by (simp add: less_mult_imp_div_less)
    then show ?thesis by simp
  qed
  from a have "cp div 262144 < 5" by (simp add: less_mult_imp_div_less)
  then have 3: "240 + cp div 262144 < 256" by simp
  show ?thesis
    unfolding encodeCodePoint_def using 1 2 3 m by simp
qed

lemma encodeUnits_bytes: "wellFormed s \<Longrightarrow> list_all (\<lambda>b. b < 256) (encodeUnits s)"
proof (induction s rule: encodeUnits.induct)
  case 1
  then show ?case by simp
next
  case (2 c)
  then have "c < 1114112" by simp
  from encodeCodePoint_bytes [OF this] 2 show ?case by simp
next
  case (3 c d cs)
  show ?case
  proof (cases "isHigh c")
    case True
    with 3(3) have l: "isLow d" and w: "wellFormed cs" by simp_all
    from True l have "c - 55296 < 1024" "d - 56320 < 1024"
      unfolding isHigh_def isLow_def by linarith+
    then have "(c - 55296) * 1024 \<le> 1023 * 1024" "d - 56320 < 1024" by simp_all
    then have "65536 + (c - 55296) * 1024 + (d - 56320) < 1114112" by simp
    from encodeCodePoint_bytes [OF this] 3(1) True l w show ?thesis by simp
  next
    case False
    with 3(3) have u: "c < 65536" "\<not> isLow c" and w: "wellFormed (d # cs)" by simp_all
    from u(1) have "c < 1114112" by simp
    from encodeCodePoint_bytes [OF this] 3(2) False u w show ?thesis by simp
  qed
qed

lemma of_char_char_of:
  fixes bs :: "nat list"
  shows "list_all (\<lambda>b. b < 256) bs \<Longrightarrow> map of_char (map char_of bs) = bs"
  by (induction bs) simp_all

lemma utf8Decode_utf8Encode: "wellFormed s \<Longrightarrow> utf8Decode (utf8Encode s) = s"
  using of_char_char_of [OF encodeUnits_bytes, of s] decodeBytes_encodeUnits [of s]
  by (simp add: utf8Decode_def utf8Encode_def)

lemma textDecode_utf8Encode:
  "wellFormed s \<Longrightarrow> take 1 s \<noteq> [65279] \<Longrightarrow> textDecode (utf8Encode s) = s"
  by (cases s) (simp_all add: textDecode_def utf8Decode_utf8Encode)

section \<open>Encoding and decoding a bundle\<close>

lemma decodeScripts_encoded:
  "list_all (decodesBack env) entries \<Longrightarrow>
   decodeScripts env
     (map (\<lambda>e. JArr [JNum (fst e), JBuf (utf8_encode env (fst (snd e))),
                    JBuf (deflateSync env (utf8_encode env (snd (snd e))))]) entries) =
   Inr (map (\<lambda>e. (JNum (fst e), fst (snd e), snd (snd e))) entries)"
  by (induction entries) (simp_all add: decodeScript_def decodesBack_def)

lemma decodeScripts_utf8:
  assumes "utf8_encode env = utf8Encode" and "utf8_decode env = utf8Decode"
    and "textDecoder_decode env = textDecode"
    and "\<forall>e \<in> set entries.
           inflateSync env (deflateSync env (utf8Encode (snd (snd e)))) =
             Some (utf8Encode (snd (snd e)))"
    and "\<forall>e \<in> set entries. wellFormed (fst (snd e)) \<and> wellFormed (snd (snd e)) \<and>
           \<not> startsWith (fst (snd e)) [65279]"
  shows "list_all (decodesBack env) entries"
  unfolding list_all_iff decodesBack_def
  using assms by (simp add: utf8Decode_utf8Encode textDecode_utf8Encode startsWith_def)

text \<open>
  Claim C1, as the code has it. Let the UTF-8 conversions be those of the platform, let
  \<^verbatim>\<open>marshal.load\<close> in binary mode return what \<^verbatim>\<open>marshal.dump\<close> wrote for the sequence, and
  let \<^verbatim>\<open>inflateSync\<close> return what \<^verbatim>\<open>deflateSync\<close> compressed. For every sequence of script
  entries (with distinct sections or not) whose names and codes are well-formed strings
  and whose names do not begin with U+FEFF, \<^verbatim>\<open>readBundleFile\<close> on a file holding the
  encoding returns the entries: the same sections, the same names and the same
  decompressed codes, in the same order.
\<close>

theorem readBundleFile_encodeBundle:
  assumes "utf8_encode env = utf8Encode" and "utf8_decode env = utf8Decode"
    and "textDecoder_decode env = textDecode"
    and "readFileSync w bundleFile = Inr (encodeBundle env entries)"
    and "loadsBack env entries"
    and "\<forall>e \<in> set entries.
           inflateSync env (deflateSync env (utf8Encode (snd (snd e)))) =
             Some (utf8Encode (snd (snd e)))"
    and "\<forall>e \<in> set entries. wellFormed (fst (snd e)) \<and> wellFormed (snd (snd e)) \<and>
           \<not> startsWith (fst (snd e)) [65279]"
  shows "readBundleFile env w bundleFile =
           Inr (map (\<lambda>e. (JNum (fst e), fst (snd e), snd (snd e))) entries)"
  using assms(4,5) decodeScripts_encoded [OF decodeScripts_utf8 [OF assms(1,2,3,6,7)]]
  by (simp add: readBundleFile_def loadsBack_def)

text \<open>
  Two scripts whose names and codes hold characters of two, three and four bytes.
\<close>

lemma dec_row_bin_row:
  "0 \<le> fst e \<Longrightarrow> dec_row (enc_row (bin_row e) @ r) = Some (bin_row e, r)"
  unfolding bin_row_def
  by (simp add: dec_nat_enc_nat numeral_3_eq_3 del: enc_scalar.simps dec_scalar.simps)
     (simp add: dec_scalar_num dec_scalar_buf del: enc_scalar.simps dec_scalar.simps)

lemma dec_many_bin_rows:
  "list_all (\<lambda>e. 0 \<le> fst e) es \<Longrightarrow>
   dec_many dec_row (length es) (concat (map enc_row (map bin_row es)) @ r) =
     Some (map bin_row es, r)"
  by (induction es) (simp_all add: dec_row_bin_row del: enc_row.simps dec_row.simps)

lemma ex_load_dump_bin:
  "list_all (\<lambda>e. 0 \<le> fst e) es \<Longrightarrow>
   ex_load (ex_dump (JArr (map bin_row es))) = Some (JArr (map bin_row es))"
  using dec_many_bin_rows [of es "[]"] by (simp add: dec_nat_enc_nat)

lemma utf_encodeBundle:
  "encodeBundle utf_env entries =
     ex_dump (JArr (map bin_row
       (map (\<lambda>e. (fst e, utf8Encode (fst (snd e)), CHR ''z'' # utf8Encode (snd (snd e))))
          entries)))"
  by (simp add: encodeBundle_def utf_env_def ex_env_def bin_row_def comp_def del: ex_dump.simps)

lemma utf_loadsBack: "list_all (\<lambda>e. 0 \<le> fst e) entries \<Longrightarrow> loadsBack utf_env entries"
proof -
  assume "list_all (\<lambda>e. 0 \<le> fst e) entries"
  then have "list_all (\<lambda>e. 0 \<le> fst e)
      (map (\<lambda>e. (fst e, utf8Encode (fst (snd e)), CHR ''z'' # utf8Encode (snd (snd e))))
         entries)"
    by (simp add: list_all_iff)
  from ex_load_dump_bin [OF this] show ?thesis
    unfolding loadsBack_def utf_encodeBundle
    by (simp add: utf_env_def ex_env_def bin_row_def comp_def del: ex_dump.simps ex_load.simps)
qed

lemma utf_inflate: "inflateSync utf_env (deflateSync utf_env b) = Some b"
  by (simp add: utf_env_def ex_env_def)

lemma utf_codecs:
  "utf8_encode utf_env = utf8Encode" "utf8_decode utf_env = utf8Decode"
  "textDecoder_decode utf_env = textDecode"
  by (simp_all add: utf_env_def)

theorem readBundleFile_encodeBundle_witness:
  "readBundleFile utf_env utf_world ex_bundle_path =
     Inr [(JNum 7, js ''Main'' @ [233, 9731, 55357, 56832], js ''puts 1''),
          (JNum 9, js ''Util'', js ''puts '' @ [8364])]"
proof -
  have rd: "readFileSync utf_world ex_bundle_path = Inr (encodeBundle utf_env utf_entries)"
    by (simp add: readFileSync_def utf_world_def ex_bundle_path_def js_def)
  have lb: "loadsBack utf_env utf_entries"
    by (rule utf_loadsBack) (simp add: utf_entries_def)
  have z: "\<forall>e \<in> set utf_entries.
           inflateSync utf_env (deflateSync utf_env (utf8Encode (snd (snd e)))) =
             Some (utf8Encode (snd (snd e)))"
    by (simp add: utf_inflate)
  have wf: "\<forall>e \<in> set utf_entries. wellFormed (fst (snd e)) \<and> wellFormed (snd (snd e)) \<and>
           \<not> startsWith (fst (snd e)) [65279]"
    by (simp add: utf_entries_def js_def isHigh_def isLow_def startsWith_def)
  from readBundleFile_encodeBundle [OF utf_codecs rd lb z wf]
  show ?thesis by (simp add: utf_entries_def)
qed

text \<open>
  The claim as it was stated fails for a name that is not well formed and for a name
  that begins with U+FEFF. The surrogate \<^verbatim>\<open>U+D800\<close> by itself is encoded as U+FFFD and
  comes back as U+FFFD, and \<^verbatim>\<open>TextDecoder\<close> drops the U+FEFF: with distinct sections and
  a codec that loads back what it dumped, the names read are not the names encoded.
\<close>

lemma broken_names:
  "textDecode (utf8Encode [55296]) = [65533]"
  "textDecode (utf8Encode (65279 # js ''Util'')) = js ''Util''"
  by (simp_all add: textDecode_def utf8Encode_def utf8Decode_def decodeBytes.simps(2) isCont_def
        isHigh_def isLow_def encodeCodePoint_def js_def)

lemma broken_codes:
  "utf8Decode (utf8Encode (js ''puts 1'')) = js ''puts 1''"
  "utf8Decode (utf8Encode (js ''puts 2'')) = js ''puts 2''"
  by (rule utf8Decode_utf8Encode, simp add: js_def isHigh_def isLow_def)+

theorem readBundleFile_ill_formed_counterexample:
  "distinct (map fst broken_entries)
   \<and> readFileSync broken_world ex_bundle_path = Inr (encodeBundle utf_env broken_entries)
   \<and> loadsBack utf_env broken_entries
   \<and> readBundleFile utf_env broken_world ex_bundle_path =
       Inr [(JNum 7, [65533], js ''puts 1''), (JNum 9, js ''Util'', js ''puts 2'')]
   \<and> map (\<lambda>e. (JNum (fst e), fst (snd e), snd (snd e))) broken_entries =
       [(JNum 7, [55296], js ''puts 1''), (JNum 9, 65279 # js ''Util'', js ''puts 2'')]
   \<and> [55296] \<noteq> [65533::nat] \<and> 65279 # js ''Util'' \<noteq> js ''Util''"
proof -
  have d: "distinct (map fst broken_entries)" by (simp add: broken_entries_def)
  have rd: "readFileSync broken_world ex_bundle_path = Inr (encodeBundle utf_env broken_entries)"
    by (simp add: readFileSync_def broken_world_def ex_bundle_path_def js_def)
  have lb: "loadsBack utf_env broken_entries"
    by (rule utf_loadsBack) (simp add: broken_entries_def)
  have dec: "decodeScripts utf_env
     (map (\<lambda>e. JArr [JNum (fst e), JBuf (utf8_encode utf_env (fst (snd e))),
                    JBuf (deflateSync utf_env (utf8_encode utf_env (snd (snd e))))])
        broken_entries) =
     Inr [(JNum 7, [65533], js ''puts 1''), (JNum 9, js ''Util'', js ''puts 2'')]"
    by (simp add: broken_entries_def decodeScript_def utf_codecs utf_inflate broken_names
          broken_codes)
  have r: "readBundleFile utf_env broken_world ex_bundle_path =
       Inr [(JNum 7, [65533], js ''puts 1''), (JNum 9, js ''Util'', js ''puts 2'')]"
    using lb dec unfolding readBundleFile_def rd loadsBack_def by simp
  have orig: "map (\<lambda>e. (JNum (fst e), fst (snd e), snd (snd e))) broken_entries =
       [(JNum 7, [55296], js ''puts 1''), (JNum 9, 65279 # js ''Util'', js ''puts 2'')]"
    by (simp add: broken_entries_def)
  have ne: "[55296] \<noteq> [65533::nat]" "65279 # js ''Util'' \<noteq> js ''Util''"
    by (simp_all add: js_def)
  from d rd lb r orig ne show ?thesis by simp
qed

section \<open>The backup and the loader bundle\<close>

lemma createBackUp_steps:
  "createBackUp env w filePath backUpsFolder =
     (if \<not> existsSync w filePath then (Inl (FileDoesNotExist filePath), w)
      else case ensureFolder w backUpsFolder of
             (Inl e, w1) \<Rightarrow> (Inl e, w1)
           | (Inr u, w1) \<Rightarrow> copyFileSync w1 filePath (backUpPath env filePath backUpsFolder))"
  by (auto simp: createBackUp_def ensureFolder_def backUpPath_def backUpName_def Let_def
      split: prod.splits sum.splits)

lemma ensureFolder_cases:
  assumes "ensureFolder w d = (Inr u, w1)"
  shows "w1 = w \<or> (lookup (tree w) d = None \<and> mkdirp (tree w) d = Inr (tree w1) \<and>
           trace w1 = trace w @ [Mkdir d True])"
proof (cases "existsSync w d")
  case True
  with assms show ?thesis by (simp add: ensureFolder_def)
next
  case False
  with assms have mk: "mkdirSync w d = (Inr u, w1)" by (simp add: ensureFolder_def)
  from mkdirSync_Inr [OF mk] False show ?thesis by (simp add: existsSync_def)
qed

lemma ensureFolder_file:
  assumes "ensureFolder w d = (Inr u, w1)" and "lookup (tree w) p = Some (File b)"
  shows "lookup (tree w1) p = Some (File b)"
  using ensureFolder_cases [OF assms(1)]
proof
  assume "w1 = w" with assms(2) show ?thesis by simp
next
  assume "lookup (tree w) d = None \<and> mkdirp (tree w) d = Inr (tree w1) \<and>
           trace w1 = trace w @ [Mkdir d True]"
  then have m: "mkdirp (tree w) d = Inr (tree w1)" by simp
  from mkdirp_keeps [OF m assms(2)] show ?thesis by simp
qed

lemma ensureFolder_dir:
  assumes "ensureFolder w d = (Inr u, w1)" and "lookup (tree w) p = Some (Dir es)"
  shows "\<exists>es'. lookup (tree w1) p = Some (Dir es')"
  using ensureFolder_cases [OF assms(1)]
proof
  assume "w1 = w" with assms(2) show ?thesis by simp
next
  assume "lookup (tree w) d = None \<and> mkdirp (tree w) d = Inr (tree w1) \<and>
           trace w1 = trace w @ [Mkdir d True]"
  then have m: "mkdirp (tree w) d = Inr (tree w1)" by simp
  from mkdirp_keeps [OF m assms(2)] show ?thesis by simp
qed

lemma ensureFolder_names:
  assumes "ensureFolder w d = (Inr u, w1)"
  shows "names (lookup (tree w1) d) = names (lookup (tree w) d)"
  using ensureFolder_cases [OF assms(1)]
proof
  assume "w1 = w" then show ?thesis by simp
next
  assume a: "lookup (tree w) d = None \<and> mkdirp (tree w) d = Inr (tree w1) \<and>
           trace w1 = trace w @ [Mkdir d True]"
  then have "lookup (tree w1) d = Some (Dir [])" using mkdirp_creates by blast
  with a show ?thesis by simp
qed

lemma ensureFolder_absent:
  assumes "ensureFolder w d = (Inr u, w1)" and "lookup (tree w) (d @ [n]) = None"
  shows "lookup (tree w1) (d @ [n]) = None"
  using ensureFolder_cases [OF assms(1)]
proof
  assume "w1 = w" with assms(2) show ?thesis by simp
next
  assume a: "lookup (tree w) d = None \<and> mkdirp (tree w) d = Inr (tree w1) \<and>
           trace w1 = trace w @ [Mkdir d True]"
  then have "lookup (tree w1) d = Some (Dir [])" using mkdirp_creates by blast
  then show ?thesis by (simp add: lookup_append)
qed

lemma ensureFolder_trace:
  assumes "ensureFolder w d = (Inr u, w1)"
  shows "trace w1 = trace w \<or> trace w1 = trace w @ [Mkdir d True]"
  using ensureFolder_cases [OF assms(1)] by auto

lemma ensureFolder_Inl:
  "ensureFolder w d = (Inl e, w1) \<Longrightarrow> tree w1 = tree w \<and> trace w1 = trace w @ [Mkdir d False]"
  using mkdirSync_Inl [of w d e w1] by (auto simp: ensureFolder_def split: if_splits)

lemma createBackUp_Inr_steps:
  assumes run: "createBackUp env w filePath backUpsFolder = (Inr u, w1)"
  shows "existsSync w filePath \<and>
    (\<exists>u0 w0. ensureFolder w backUpsFolder = (Inr u0, w0) \<and>
       copyFileSync w0 filePath (backUpPath env filePath backUpsFolder) = (Inr u, w1))"
proof -
  have ex: "existsSync w filePath"
  proof (rule ccontr)
    assume "\<not> existsSync w filePath"
    with run show False by (simp add: createBackUp_steps)
  qed
  obtain r0 w0 where ens0: "ensureFolder w backUpsFolder = (r0, w0)"
    by (cases "ensureFolder w backUpsFolder")
  show ?thesis
  proof (cases r0)
    case (Inl e0)
    with run ex ens0 show ?thesis by (simp add: createBackUp_steps)
  next
    case (Inr u0)
    with run ex ens0 show ?thesis by (simp add: createBackUp_steps)
  qed
qed

lemma createBackUp_Inr:
  assumes run: "createBackUp env w filePath backUpsFolder = (Inr u, w1)"
  shows "\<exists>b. lookup (tree w) filePath = Some (File b)
     \<and> lookup (tree w1) (backUpPath env filePath backUpsFolder) = Some (File b)
     \<and> (trace w1 = trace w @
             [CopyFile filePath (backUpPath env filePath backUpsFolder) True] \<or>
         trace w1 = trace w @
             [Mkdir backUpsFolder True,
              CopyFile filePath (backUpPath env filePath backUpsFolder) True])
     \<and> (lookup (tree w) (backUpPath env filePath backUpsFolder) = None \<longrightarrow>
           lookup (tree w1) filePath = Some (File b) \<and>
           names (lookup (tree w1) backUpsFolder) =
             names (lookup (tree w) backUpsFolder) @ [backUpName env filePath])"
proof -
  let ?bak = "backUpPath env filePath backUpsFolder"
  from createBackUp_Inr_steps [OF run] obtain u0 w0 where
    ex: "existsSync w filePath" and ens: "ensureFolder w backUpsFolder = (Inr u0, w0)"
    and cp: "copyFileSync w0 filePath ?bak = (Inr u, w1)"
    by blast
  from copyFileSync_Inr [OF cp] obtain b where
    src: "lookup (tree w0) filePath = Some (File b)"
    and pt: "put (tree w0) ?bak b = Inr (tree w1)"
    and tr1: "trace w1 = trace w0 @ [CopyFile filePath ?bak True]"
    by blast
  from ex obtain n where n: "lookup (tree w) filePath = Some n"
    by (auto simp: existsSync_def)
  have wfile: "lookup (tree w) filePath = Some (File b)"
  proof (cases n)
    case (File c)
    with n ensureFolder_file [OF ens] have "lookup (tree w0) filePath = Some (File c)" by simp
    with src File n show ?thesis by simp
  next
    case (Dir es)
    with n ensureFolder_dir [OF ens] obtain es' where "lookup (tree w0) filePath = Some (Dir es')"
      by blast
    with src show ?thesis by simp
  qed
  have bak: "lookup (tree w1) ?bak = Some (File b)" by (rule put_lookup [OF pt])
  from ensureFolder_trace [OF ens] tr1 have
    tr: "trace w1 = trace w @ [CopyFile filePath ?bak True] \<or>
         trace w1 = trace w @ [Mkdir backUpsFolder True, CopyFile filePath ?bak True]"
    by auto
  have fresh: "lookup (tree w) ?bak = None \<longrightarrow>
           lookup (tree w1) filePath = Some (File b) \<and>
           names (lookup (tree w1) backUpsFolder) =
             names (lookup (tree w) backUpsFolder) @ [backUpName env filePath]"
  proof
    assume none: "lookup (tree w) ?bak = None"
    then have "lookup (tree w) (backUpsFolder @ [backUpName env filePath]) = None"
      by (simp add: backUpPath_def join_def)
    from ensureFolder_absent [OF ens this]
    have none0: "lookup (tree w0) (backUpsFolder @ [backUpName env filePath]) = None" .
    from none wfile have ne: "filePath \<noteq> ?bak" by auto
    from put_keeps [OF pt src ne] have a: "lookup (tree w1) filePath = Some (File b)" by simp
    from pt have "put (tree w0) (backUpsFolder @ [backUpName env filePath]) b = Inr (tree w1)"
      by (simp add: backUpPath_def join_def)
    from put_new_entry [OF this none0]
    have "names (lookup (tree w1) backUpsFolder) =
        names (lookup (tree w0) backUpsFolder) @ [backUpName env filePath]" .
    with ensureFolder_names [OF ens] a show "lookup (tree w1) filePath = Some (File b) \<and>
           names (lookup (tree w1) backUpsFolder) =
             names (lookup (tree w) backUpsFolder) @ [backUpName env filePath]"
      by simp
  qed
  show ?thesis
    apply (rule exI [of _ b])
    using wfile bak tr fresh apply simp
    done
qed


lemma createBackUp_Inl:
  assumes run: "createBackUp env w filePath backUpsFolder = (Inl e, w1)"
  shows "(\<forall>p b. lookup (tree w) p = Some (File b) \<longrightarrow> lookup (tree w1) p = Some (File b))
     \<and> (\<exists>evs. trace w1 = trace w @ evs \<and>
          (evs = [] \<or> evs = [Mkdir backUpsFolder False] \<or>
           evs = [CopyFile filePath (backUpPath env filePath backUpsFolder) False] \<or>
           evs = [Mkdir backUpsFolder True,
                  CopyFile filePath (backUpPath env filePath backUpsFolder) False]))"
proof (cases "existsSync w filePath")
  case False
  with run have "w1 = w" by (simp add: createBackUp_steps)
  then show ?thesis by simp
next
  case True
  obtain r0 w0 where ens: "ensureFolder w backUpsFolder = (r0, w0)" by (cases "ensureFolder w backUpsFolder")
  show ?thesis
  proof (cases r0)
    case (Inl e0)
    with run True ens have "w1 = w0" by (simp add: createBackUp_steps)
    with ensureFolder_Inl [of w backUpsFolder e0 w0] ens Inl show ?thesis by simp
  next
    case (Inr u0)
    with run True ens have
      cp: "copyFileSync w0 filePath (backUpPath env filePath backUpsFolder) = (Inl e, w1)"
      by (simp add: createBackUp_steps)
    from copyFileSync_Inl [OF cp] have
      t: "tree w1 = tree w0"
      and tr: "trace w1 = trace w0 @ [CopyFile filePath (backUpPath env filePath backUpsFolder) False]"
      by simp_all
    from ens Inr have ens': "ensureFolder w backUpsFolder = (Inr u0, w0)" by simp
    from ensureFolder_file [OF ens'] t
    have a: "\<forall>p b. lookup (tree w) p = Some (File b) \<longrightarrow> lookup (tree w1) p = Some (File b)"
      by simp
    from ensureFolder_trace [OF ens'] tr have "trace w1 = trace w @ [CopyFile filePath (backUpPath env filePath backUpsFolder) False]
      \<or> trace w1 = trace w @ [Mkdir backUpsFolder True,
                  CopyFile filePath (backUpPath env filePath backUpsFolder) False]"
      by auto
    with a show ?thesis by auto
  qed
qed

lemma writeFileSync_trace:
  "writeFileSync w p b = (r, w') \<Longrightarrow>
   trace w' = trace w @ [WriteFile p True] \<or> trace w' = trace w @ [WriteFile p False]"
  by (auto simp: writeFileSync_def split: sum.splits)

lemma createScriptLoaderBundle_steps:
  "createScriptLoaderBundle env w bundleFile backUpsFolderPath scriptFolder =
     (case createBackUp env w bundleFile backUpsFolderPath of
        (Inl e, w1) \<Rightarrow> (Inl e, w1)
      | (Inr u, w1) \<Rightarrow>
          (case writeFileSync w1 bundleFile (encodeBundle env [loaderEntry env scriptFolder]) of
             (Inl e, w2) \<Rightarrow> (Inl e, w2)
           | (Inr u, w2) \<Rightarrow> (Inr LOADER_BUNDLE_CREATED, w2)))"
  by (auto simp: createScriptLoaderBundle_def encodeBundle_def loaderEntry_def Let_def
      split: prod.splits sum.splits)

lemma createScriptLoaderBundle_Inr:
  assumes run: "createScriptLoaderBundle env w bundleFile backUpsFolderPath scriptFolder = (Inr r, w')"
  shows "r = LOADER_BUNDLE_CREATED \<and>
    (\<exists>u w1. createBackUp env w bundleFile backUpsFolderPath = (Inr u, w1) \<and>
       writeFileSync w1 bundleFile (encodeBundle env [loaderEntry env scriptFolder]) = (Inr (), w'))"
proof -
  obtain r1 w1 where b: "createBackUp env w bundleFile backUpsFolderPath = (r1, w1)"
    by (cases "createBackUp env w bundleFile backUpsFolderPath")
  obtain r2 w2 where wr: "writeFileSync w1 bundleFile (encodeBundle env [loaderEntry env scriptFolder]) = (r2, w2)"
    by (cases "writeFileSync w1 bundleFile (encodeBundle env [loaderEntry env scriptFolder])")
  show ?thesis
  proof (cases r1)
    case (Inl e)
    with run b show ?thesis by (simp add: createScriptLoaderBundle_steps)
  next
    case (Inr u)
    show ?thesis
    proof (cases r2)
      case (Inl e)
      with run b wr Inr show ?thesis by (simp add: createScriptLoaderBundle_steps)
    next
      case (Inr u2)
      with run b wr \<open>r1 = Inr u\<close> show ?thesis by (simp add: createScriptLoaderBundle_steps)
    qed
  qed
qed

lemma createScriptLoaderBundle_events:
  assumes run: "createScriptLoaderBundle env w bundleFile backUpsFolderPath scriptFolder = (r, w')"
  shows "trace w' = trace w @ newEvents w w' \<and>
     writesAfterCopy bundleFile (backUpPath env bundleFile backUpsFolderPath) False (newEvents w w')"
proof -
  let ?bak = "backUpPath env bundleFile backUpsFolderPath"
  obtain r1 w1 where b: "createBackUp env w bundleFile backUpsFolderPath = (r1, w1)"
    by (cases "createBackUp env w bundleFile backUpsFolderPath")
  show ?thesis
  proof (cases r1)
    case (Inl e)
    with run b have w': "w' = w1" by (simp add: createScriptLoaderBundle_steps)
    from b Inl have "createBackUp env w bundleFile backUpsFolderPath = (Inl e, w1)" by simp
    from createBackUp_Inl [OF this] obtain evs where
      evs: "trace w1 = trace w @ evs"
        "evs = [] \<or> evs = [Mkdir backUpsFolderPath False] \<or>
           evs = [CopyFile bundleFile ?bak False] \<or>
           evs = [Mkdir backUpsFolderPath True, CopyFile bundleFile ?bak False]"
      by blast
    from evs(1) have ne: "newEvents w w' = evs" by (simp add: newEvents_def w')
    from evs(2) have "writesAfterCopy bundleFile ?bak False evs" by auto
    with evs(1) ne w' show ?thesis by simp
  next
    case (Inr u)
    with b have b': "createBackUp env w bundleFile backUpsFolderPath = (Inr u, w1)" by simp
    obtain r2 w2 where wr: "writeFileSync w1 bundleFile (encodeBundle env [loaderEntry env scriptFolder]) = (r2, w2)"
      by (cases "writeFileSync w1 bundleFile (encodeBundle env [loaderEntry env scriptFolder])")
    from run b' wr have w': "w' = w2"
      by (cases r2) (simp_all add: createScriptLoaderBundle_steps)
    from createBackUp_Inr [OF b'] have
      t1: "trace w1 = trace w @ [CopyFile bundleFile ?bak True] \<or>
           trace w1 = trace w @ [Mkdir backUpsFolderPath True, CopyFile bundleFile ?bak True]"
      by blast
    from writeFileSync_trace [OF wr] have
      t2: "trace w2 = trace w1 @ [WriteFile bundleFile True] \<or>
           trace w2 = trace w1 @ [WriteFile bundleFile False]" .
    from t1 t2 obtain evs where evs: "trace w2 = trace w @ evs"
       "evs = [CopyFile bundleFile ?bak True, WriteFile bundleFile True] \<or>
        evs = [CopyFile bundleFile ?bak True, WriteFile bundleFile False] \<or>
        evs = [Mkdir backUpsFolderPath True, CopyFile bundleFile ?bak True, WriteFile bundleFile True] \<or>
        evs = [Mkdir backUpsFolderPath True, CopyFile bundleFile ?bak True, WriteFile bundleFile False]"
      by auto
    from evs(1) have ne: "newEvents w w' = evs" by (simp add: newEvents_def w')
    from evs(2) have "writesAfterCopy bundleFile ?bak False evs" by auto
    with evs(1) ne w' show ?thesis by simp
  qed
qed

lemma createBackUp_fails_unchanged:
  assumes b: "createBackUp env w bundleFile backUpsFolderPath = (Inl e, w1)"
  shows "readFileSync w1 bundleFile = readFileSync w bundleFile \<and>
     list_all (\<lambda>ev. ev \<noteq> WriteFile bundleFile True \<and> ev \<noteq> WriteFile bundleFile False)
       (newEvents w w1)"
proof -
  from createBackUp_Inl [OF b] obtain evs where
    keep: "\<forall>p c. lookup (tree w) p = Some (File c) \<longrightarrow> lookup (tree w1) p = Some (File c)"
    and evs: "trace w1 = trace w @ evs"
      "evs = [] \<or> evs = [Mkdir backUpsFolderPath False] \<or>
         evs = [CopyFile bundleFile (backUpPath env bundleFile backUpsFolderPath) False] \<or>
         evs = [Mkdir backUpsFolderPath True,
                CopyFile bundleFile (backUpPath env bundleFile backUpsFolderPath) False]"
    by blast
  from evs(1) have ne: "newEvents w w1 = evs" by (simp add: newEvents_def)
  from evs(2) have nw: "list_all (\<lambda>ev. ev \<noteq> WriteFile bundleFile True \<and> ev \<noteq> WriteFile bundleFile False) evs"
    by auto
  have rd: "readFileSync w1 bundleFile = readFileSync w bundleFile"
  proof (cases "existsSync w bundleFile")
    case False
    with b have "w1 = w" by (simp add: createBackUp_steps)
    then show ?thesis by simp
  next
    case True
    obtain r0 w0 where ens: "ensureFolder w backUpsFolderPath = (r0, w0)"
      by (cases "ensureFolder w backUpsFolderPath")
    show ?thesis
    proof (cases r0)
      case (Inl e0)
      with b True ens have "w1 = w0" by (simp add: createBackUp_steps)
      with ensureFolder_Inl [of w backUpsFolderPath e0 w0] ens Inl show ?thesis
        by (simp add: readFileSync_def)
    next
      case (Inr u0)
      with b True ens have
        cp: "copyFileSync w0 bundleFile (backUpPath env bundleFile backUpsFolderPath) = (Inl e, w1)"
        by (simp add: createBackUp_steps)
      from copyFileSync_Inl [OF cp] have t: "tree w1 = tree w0" by simp
      from ens Inr have ens': "ensureFolder w backUpsFolderPath = (Inr u0, w0)" by simp
      from True obtain n where n: "lookup (tree w) bundleFile = Some n"
        by (auto simp: existsSync_def)
      show ?thesis
      proof (cases n)
        case (File c)
        with n ensureFolder_file [OF ens'] t show ?thesis by (simp add: readFileSync_def)
      next
        case (Dir es)
        with n ensureFolder_dir [OF ens'] obtain es' where "lookup (tree w0) bundleFile = Some (Dir es')"
          by blast
        with n Dir t show ?thesis by (simp add: readFileSync_def)
      qed
    qed
  qed
  from rd nw ne show ?thesis by simp
qed

text \<open>Two runs on the example project.\<close>

lemma ex_loader_run:
  "createScriptLoaderBundle ex_env ex_world ex_bundle_path ex_backups (js ''Scripts'') =
     (Inr LOADER_BUNDLE_CREATED, ex_loader_made_world)"
  by (simp add: createScriptLoaderBundle_steps createBackUp_steps ensureFolder_def existsSync_def
        mkdirSync_def copyFileSync_def writeFileSync_def ex_world_def ex_bundle_path_def
        ex_backups_def ex_loader_made_world_def backUpPath_def join_def js_def
        del: ex_dump.simps)

lemma ex_backup_fails:
  "createBackUp ex_env ex_world ex_bundle_path ex_bundle_path =
     (Inl (SystemError ENOTDIR (backUpPath ex_env ex_bundle_path ex_bundle_path)),
      ex_world\<lparr>trace := [CopyFile ex_bundle_path
                           (backUpPath ex_env ex_bundle_path ex_bundle_path) False]\<rparr>)"
  by (simp add: createBackUp_steps ensureFolder_def existsSync_def
        copyFileSync_def ex_world_def ex_bundle_path_def
        backUpPath_def join_def js_def
        del: ex_dump.simps)

text \<open>
  Claim C2. \<^verbatim>\<open>createScriptLoaderBundle\<close> fails with the error of the missing file, and
  leaves the world as it was, when the bundle file does not exist. In every run, whatever
  its outcome, each write to the bundle file, attempted or done, comes after a
  successful copy of the bundle file to its backup path in the backup folder. And when
  \<^verbatim>\<open>createBackUp\<close> throws, \<^verbatim>\<open>createScriptLoaderBundle\<close> throws the same error, no write
  to the bundle file was attempted, and reading the bundle file gives what it gave before.
\<close>

theorem createScriptLoaderBundle_backup_first:
  "(\<not> existsSync w bundleFile \<longrightarrow>
      createScriptLoaderBundle env w bundleFile backUpsFolderPath scriptFolder =
        (Inl (FileDoesNotExist bundleFile), w))
   \<and> (createScriptLoaderBundle env w bundleFile backUpsFolderPath scriptFolder = (r, w') \<longrightarrow>
        trace w' = trace w @ newEvents w w' \<and>
        writesAfterCopy bundleFile (backUpPath env bundleFile backUpsFolderPath) False
          (newEvents w w'))
   \<and> (createBackUp env w bundleFile backUpsFolderPath = (Inl e, w1) \<longrightarrow>
        createScriptLoaderBundle env w bundleFile backUpsFolderPath scriptFolder = (Inl e, w1) \<and>
        readFileSync w1 bundleFile = readFileSync w bundleFile \<and>
        list_all (\<lambda>ev. ev \<noteq> WriteFile bundleFile True \<and> ev \<noteq> WriteFile bundleFile False)
          (newEvents w w1))"
proof (intro conjI impI)
  assume "\<not> existsSync w bundleFile"
  then show "createScriptLoaderBundle env w bundleFile backUpsFolderPath scriptFolder =
        (Inl (FileDoesNotExist bundleFile), w)"
    by (simp add: createScriptLoaderBundle_steps createBackUp_steps)
next
  assume "createScriptLoaderBundle env w bundleFile backUpsFolderPath scriptFolder = (r, w')"
  from createScriptLoaderBundle_events [OF this]
  show "trace w' = trace w @ newEvents w w'"
    and "writesAfterCopy bundleFile (backUpPath env bundleFile backUpsFolderPath) False
          (newEvents w w')"
    by simp_all
next
  assume b: "createBackUp env w bundleFile backUpsFolderPath = (Inl e, w1)"
  then show "createScriptLoaderBundle env w bundleFile backUpsFolderPath scriptFolder = (Inl e, w1)"
    by (simp add: createScriptLoaderBundle_steps)
  from createBackUp_fails_unchanged [OF b]
  show "readFileSync w1 bundleFile = readFileSync w bundleFile"
    and "list_all (\<lambda>ev. ev \<noteq> WriteFile bundleFile True \<and> ev \<noteq> WriteFile bundleFile False)
          (newEvents w w1)"
    by simp_all
qed


text \<open>
  On the example project: a missing bundle file; the run with the backups folder, whose
  events are the creation of the folder, the copy and the write; and a run whose backup
  folder is a file, so that the copy fails.
\<close>

theorem createScriptLoaderBundle_backup_first_witness:
  "createScriptLoaderBundle ex_env ex_world [js ''Missing''] ex_backups (js ''Scripts'') =
     (Inl (FileDoesNotExist [js ''Missing'']), ex_world)
   \<and> newEvents ex_world ex_loader_made_world =
       [Mkdir ex_backups True,
        CopyFile ex_bundle_path (backUpPath ex_env ex_bundle_path ex_backups) True,
        WriteFile ex_bundle_path True]
   \<and> writesAfterCopy ex_bundle_path (backUpPath ex_env ex_bundle_path ex_backups) False
       (newEvents ex_world ex_loader_made_world)
   \<and> createScriptLoaderBundle ex_env ex_world ex_bundle_path ex_bundle_path (js ''Scripts'') =
       (Inl (SystemError ENOTDIR (backUpPath ex_env ex_bundle_path ex_bundle_path)),
        ex_world\<lparr>trace := [CopyFile ex_bundle_path
                           (backUpPath ex_env ex_bundle_path ex_bundle_path) False]\<rparr>)
   \<and> readFileSync (ex_world\<lparr>trace := [CopyFile ex_bundle_path
                           (backUpPath ex_env ex_bundle_path ex_bundle_path) False]\<rparr>)
         ex_bundle_path = readFileSync ex_world ex_bundle_path"
proof -
  have missing: "\<not> existsSync ex_world [js ''Missing'']"
    by (simp add: existsSync_def ex_world_def js_def)
  have ne: "newEvents ex_world ex_loader_made_world =
       [Mkdir ex_backups True,
        CopyFile ex_bundle_path (backUpPath ex_env ex_bundle_path ex_backups) True,
        WriteFile ex_bundle_path True]"
    by (simp add: newEvents_def ex_world_def ex_loader_made_world_def)
  note a = createScriptLoaderBundle_backup_first [of ex_world "[js ''Missing'']" ex_env ex_backups
      "js ''Scripts''"]
  note b = createScriptLoaderBundle_backup_first [of ex_world ex_bundle_path ex_env ex_backups
      "js ''Scripts''" "Inr LOADER_BUNDLE_CREATED" ex_loader_made_world]
  note c = createScriptLoaderBundle_backup_first [of ex_world ex_bundle_path ex_env ex_bundle_path
      "js ''Scripts''" _ _ "SystemError ENOTDIR (backUpPath ex_env ex_bundle_path ex_bundle_path)"
      "ex_world\<lparr>trace := [CopyFile ex_bundle_path
                           (backUpPath ex_env ex_bundle_path ex_bundle_path) False]\<rparr>"]
  from a missing have 1: "createScriptLoaderBundle ex_env ex_world [js ''Missing''] ex_backups (js ''Scripts'') =
     (Inl (FileDoesNotExist [js ''Missing'']), ex_world)" by blast
  from b ex_loader_run have 2: "writesAfterCopy ex_bundle_path (backUpPath ex_env ex_bundle_path ex_backups) False
       (newEvents ex_world ex_loader_made_world)" by blast
  from c ex_backup_fails have 3: "createScriptLoaderBundle ex_env ex_world ex_bundle_path ex_bundle_path (js ''Scripts'') =
       (Inl (SystemError ENOTDIR (backUpPath ex_env ex_bundle_path ex_bundle_path)),
        ex_world\<lparr>trace := [CopyFile ex_bundle_path
                           (backUpPath ex_env ex_bundle_path ex_bundle_path) False]\<rparr>)"
    and 4: "readFileSync (ex_world\<lparr>trace := [CopyFile ex_bundle_path
                           (backUpPath ex_env ex_bundle_path ex_bundle_path) False]\<rparr>)
         ex_bundle_path = readFileSync ex_world ex_bundle_path"
    by blast+
  from 1 ne 2 3 4 show ?thesis by simp
qed

section \<open>The result of creating the loader bundle\<close>

text \<open>
  The name of the backup has the form \<^verbatim>\<open>{basename} - {yyyy-MM-dd_HH.mm.ss}.bak\<close>, for
  every date with a year of four digits.
\<close>

lemma toString_length_1: "n < 10 \<Longrightarrow> length (toString n) = 1"
  by (subst toString.simps) simp

lemma toString_length_2: "10 \<le> n \<Longrightarrow> n < 100 \<Longrightarrow> length (toString n) = 2"
  by (subst toString.simps) (simp add: toString_length_1)

lemma toString_length_3: "100 \<le> n \<Longrightarrow> n < 1000 \<Longrightarrow> length (toString n) = 3"
  by (subst toString.simps) (simp add: toString_length_2)

lemma toString_length_4: "1000 \<le> n \<Longrightarrow> n < 10000 \<Longrightarrow> length (toString n) = 4"
  by (subst toString.simps) (simp add: toString_length_3)

lemma two_digits:
  assumes "n < 100"
  shows "\<exists>a b. padStart 2 48 (toString n) = [a, b] \<and> isDigit a \<and> isDigit b"
proof -
  have l: "length (padStart 2 48 (toString n)) = 2"
  proof (cases "n < 10")
    case True
    then show ?thesis by (simp add: padStart_def toString_length_1)
  next
    case False
    with assms show ?thesis by (simp add: padStart_def toString_length_2)
  qed
  have d: "list_all isDigit (padStart 2 48 (toString n))"
    using toString_digits [of n] by (auto simp: padStart_def list_all_iff isDigit_def)
  from l obtain a b where ab: "padStart 2 48 (toString n) = [a, b]"
    by (auto simp: length_Suc_conv numeral_2_eq_2)
  with d show ?thesis by simp
qed

lemma four_digits:
  assumes "1000 \<le> n" "n < 10000"
  shows "\<exists>a b c d. toString n = [a, b, c, d] \<and> isDigit a \<and> isDigit b \<and> isDigit c \<and> isDigit d"
proof -
  from assms have l: "length (toString n) = 4" by (rule toString_length_4)
  then obtain a b c d where abcd: "toString n = [a, b, c, d]"
    by (auto simp: length_Suc_conv numeral_eq_Suc)
  with toString_digits [of n] show ?thesis by simp
qed

lemma currentDate_pattern:
  assumes "1000 \<le> getFullYear (now env)" "getFullYear (now env) < 10000"
    and "getMonth (now env) < 12" and "getDate (now env) < 32" and "getHours (now env) < 24"
    and "getMinutes (now env) < 60" and "getSeconds (now env) < 60"
  shows "length (currentDate env) = 19 \<and> matchesPattern ''yyyy-MM-dd_HH.mm.ss'' (currentDate env)"
proof -
  from four_digits [OF assms(1,2)] obtain y1 y2 y3 y4 where
    y: "toString (getFullYear (now env)) = [y1, y2, y3, y4]"
      "isDigit y1" "isDigit y2" "isDigit y3" "isDigit y4" by blast
  from assms(3) have "Suc (getMonth (now env)) < 100" by simp
  from two_digits [OF this] obtain m1 m2 where
    m: "padStart 2 48 (toString (Suc (getMonth (now env)))) = [m1, m2]" "isDigit m1" "isDigit m2"
    by blast
  from assms(4) have "getDate (now env) < 100" by simp
  from two_digits [OF this] obtain d1 d2 where
    d: "padStart 2 48 (toString (getDate (now env))) = [d1, d2]" "isDigit d1" "isDigit d2"
    by blast
  from assms(5) have "getHours (now env) < 100" by simp
  from two_digits [OF this] obtain h1 h2 where
    h: "padStart 2 48 (toString (getHours (now env))) = [h1, h2]" "isDigit h1" "isDigit h2"
    by blast
  from assms(6) have "getMinutes (now env) < 100" by simp
  from two_digits [OF this] obtain n1 n2 where
    n: "padStart 2 48 (toString (getMinutes (now env))) = [n1, n2]" "isDigit n1" "isDigit n2"
    by blast
  from assms(7) have "getSeconds (now env) < 100" by simp
  from two_digits [OF this] obtain s1 s2 where
    s: "padStart 2 48 (toString (getSeconds (now env))) = [s1, s2]" "isDigit s1" "isDigit s2"
    by blast
  have c: "currentDate env =
      [y1, y2, y3, y4, 45, m1, m2, 45, d1, d2, 95, h1, h2, 46, n1, n2, 46, s1, s2]"
    by (simp add: currentDate_def Let_def y(1) m(1) d(1) h(1) n(1) s(1) js_def)
  show ?thesis
    unfolding c using y m d h n s by simp
qed

lemma backUpName_pattern:
  assumes "length (currentDate env) = 19"
    and "matchesPattern ''yyyy-MM-dd_HH.mm.ss'' (currentDate env)"
  shows "isBackUpName (basename filePath) (backUpName env filePath)"
  using assms by (simp add: isBackUpName_def backUpName_def Let_def js_def)

text \<open>
  The run whose backup folder has no entry with the name of the backup. Let the run
  succeed and let the libraries load and decode back the loader entry. Then the entries
  of the backup folder afterwards are the entries before (none, if the folder was
  created) followed by the one new entry, the name of the backup; the backup holds what
  the bundle file held; and the bundle file decodes to exactly one script, with the
  loader's section, the loader's name and the loader script as its code.
\<close>

lemma createScriptLoaderBundle_result:
  assumes run: "createScriptLoaderBundle env w bundleFile backUpsFolderPath scriptFolder = (Inr r, w')"
    and fresh: "\<not> existsSync w (backUpPath env bundleFile backUpsFolderPath)"
    and lb: "loadsBack env [loaderEntry env scriptFolder]"
    and db: "decodesBack env (loaderEntry env scriptFolder)"
  shows "r = LOADER_BUNDLE_CREATED
     \<and> dirEntries w' backUpsFolderPath =
         dirEntries w backUpsFolderPath @ [backUpName env bundleFile]
     \<and> readFileSync w' (backUpPath env bundleFile backUpsFolderPath) = readFileSync w bundleFile
     \<and> readBundleFile env w' bundleFile =
         Inr [(JNum LOADER_SCRIPT_SECTION, LOADER_SCRIPT_NAME,
               loaderScript env (resolveRPG env scriptFolder))]"
proof -
  let ?bak = "backUpPath env bundleFile backUpsFolderPath"
  let ?m = "encodeBundle env [loaderEntry env scriptFolder]"
  from createScriptLoaderBundle_Inr [OF run] obtain u w1 where
    r: "r = LOADER_BUNDLE_CREATED"
    and b: "createBackUp env w bundleFile backUpsFolderPath = (Inr u, w1)"
    and wr: "writeFileSync w1 bundleFile ?m = (Inr (), w')"
    by blast
  from fresh have none: "lookup (tree w) ?bak = None" by (simp add: existsSync_def)
  from createBackUp_Inr [OF b] none obtain c where
    old: "lookup (tree w) bundleFile = Some (File c)"
    and bak1: "lookup (tree w1) ?bak = Some (File c)"
    and file1: "lookup (tree w1) bundleFile = Some (File c)"
    and names1: "names (lookup (tree w1) backUpsFolderPath) =
             names (lookup (tree w) backUpsFolderPath) @ [backUpName env bundleFile]"
    by blast
  from writeFileSync_Inr [OF wr] have pt: "put (tree w1) bundleFile ?m = Inr (tree w')" by simp
  from file1 have ex1: "lookup (tree w1) bundleFile \<noteq> None" by simp
  from put_overwrite_names [OF pt ex1]
  have "names (lookup (tree w') backUpsFolderPath) = names (lookup (tree w1) backUpsFolderPath)" .
  with names1 have entries: "dirEntries w' backUpsFolderPath =
         dirEntries w backUpsFolderPath @ [backUpName env bundleFile]"
    by (simp add: dirEntries_def)
  from none old have ne: "?bak \<noteq> bundleFile" by auto
  from put_keeps [OF pt bak1 ne] have "lookup (tree w') ?bak = Some (File c)" by simp
  with old have backup: "readFileSync w' ?bak = readFileSync w bundleFile"
    by (simp add: readFileSync_def)
  from put_lookup [OF pt] have rd: "readFileSync w' bundleFile = Inr ?m"
    by (simp add: readFileSync_def)
  from db have "list_all (decodesBack env) [loaderEntry env scriptFolder]" by simp
  from decodeScripts_encoded [OF this] lb rd
  have "readBundleFile env w' bundleFile =
         Inr [(JNum LOADER_SCRIPT_SECTION, LOADER_SCRIPT_NAME,
               loaderScript env (resolveRPG env scriptFolder))]"
    by (simp add: readBundleFile_def loadsBack_def loaderEntry_def)
  with r entries backup show ?thesis by simp
qed

text \<open>The run on the example project, whose backups folder did not exist.\<close>

lemma ex_ascii: "list_all (\<lambda>c. c < 256) (js s)"
  by (simp add: js_def list_all_iff)

lemma ex_loader_ascii:
  "list_all (\<lambda>c. c < 256) (loaderScript ex_env (resolveRPG ex_env (js ''Scripts'')))"
  by (simp add: loaderScript_def ex_env_def LOADER_SCRIPT_NAME_def LOAD_ORDER_FILE_NAME_def
        ex_ascii)

lemma ex_loader_decodesBack: "decodesBack ex_env (loaderEntry ex_env (js ''Scripts''))"
proof -
  have n: "textDecoder_decode ex_env (utf8_encode ex_env LOADER_SCRIPT_NAME) = LOADER_SCRIPT_NAME"
    using ex_utf8_string [of LOADER_SCRIPT_NAME]
    by (simp add: LOADER_SCRIPT_NAME_def ex_ascii ex_env_def)
  from ex_utf8_string [OF ex_loader_ascii] n show ?thesis
    by (simp add: decodesBack_def loaderEntry_def ex_inflate_deflate)
qed

lemma ex_loader_loadsBack: "loadsBack ex_env [loaderEntry ex_env (js ''Scripts'')]"
  by (rule ex_loadsBack) (simp add: loaderEntry_def LOADER_SCRIPT_SECTION_def)

lemma ex_loader_result:
  "dirEntries ex_world ex_backups = []
   \<and> dirEntries ex_loader_made_world ex_backups = [backUpName ex_env ex_bundle_path]
   \<and> readFileSync ex_loader_made_world (backUpPath ex_env ex_bundle_path ex_backups) =
       readFileSync ex_world ex_bundle_path
   \<and> readBundleFile ex_env ex_loader_made_world ex_bundle_path =
         Inr [(JNum LOADER_SCRIPT_SECTION, LOADER_SCRIPT_NAME,
               loaderScript ex_env (resolveRPG ex_env (js ''Scripts'')))]"
proof -
  have fresh: "\<not> existsSync ex_world (backUpPath ex_env ex_bundle_path ex_backups)"
    by (simp add: existsSync_def ex_world_def backUpPath_def join_def ex_backups_def js_def)
  have e: "dirEntries ex_world ex_backups = []"
    by (simp add: dirEntries_def ex_world_def ex_backups_def js_def)
  from createScriptLoaderBundle_result [OF ex_loader_run fresh ex_loader_loadsBack
      ex_loader_decodesBack] e
  show ?thesis by simp
qed

text \<open>
  The run on a project whose backup folder already holds a backup of the bundle file
  made in the same second.
\<close>

lemma ex_currentDate: "currentDate ex_env = js ''2024-01-15_12.30.45''"
proof -
  have a: "toString 2024 = js ''2024''" by (simp add: toString.simps js_def)
  have b: "toString 15 = js ''15''" "toString 12 = js ''12''" "toString 30 = js ''30''"
    "toString 45 = js ''45''" "toString (Suc 0) = js ''1''"
    by (simp_all add: toString.simps js_def)
  have c: "padStart 2 48 (js ''1'') = js ''01''" "padStart 2 48 (js ''15'') = js ''15''"
    "padStart 2 48 (js ''12'') = js ''12''" "padStart 2 48 (js ''30'') = js ''30''"
    "padStart 2 48 (js ''45'') = js ''45''"
    by (simp_all add: padStart_def js_def)
  show ?thesis
    by (simp add: currentDate_def ex_env_def Let_def a b c) (simp add: js_def)
qed

lemma ex_backUpName:
  "backUpName ex_env ex_bundle_path = js ''Scripts.rvdata2 - 2024-01-15_12.30.45.bak''"
  by (simp add: backUpName_def ex_currentDate basename_def ex_bundle_path_def) (simp add: js_def)

lemma ex_backup_copy:
  "createBackUp ex_env ex_backup_world ex_bundle_path ex_backups =
     (Inr (),
      \<lparr>tree = Dir
        [(js ''Data'', Dir [(js ''Scripts.rvdata2'', File (ex_dump ex_bundle))]),
         (js ''Backups'',
          Dir [(js ''Scripts.rvdata2 - 2024-01-15_12.30.45.bak'', File (ex_dump ex_bundle))])],
       trace = [CopyFile ex_bundle_path
                 (join ex_backups (js ''Scripts.rvdata2 - 2024-01-15_12.30.45.bak'')) True]\<rparr>)"
proof -
  have a: "existsSync ex_backup_world ex_bundle_path"
    by (simp add: existsSync_def ex_backup_world_def ex_bundle_path_def js_def)
  have b: "ensureFolder ex_backup_world ex_backups = (Inr (), ex_backup_world)"
    by (simp add: ensureFolder_def existsSync_def ex_backup_world_def ex_backups_def js_def)
  have c: "copyFileSync ex_backup_world ex_bundle_path
       (join ex_backups (js ''Scripts.rvdata2 - 2024-01-15_12.30.45.bak'')) =
     (Inr (),
      \<lparr>tree = Dir
        [(js ''Data'', Dir [(js ''Scripts.rvdata2'', File (ex_dump ex_bundle))]),
         (js ''Backups'',
          Dir [(js ''Scripts.rvdata2 - 2024-01-15_12.30.45.bak'', File (ex_dump ex_bundle))])],
       trace = [CopyFile ex_bundle_path
                 (join ex_backups (js ''Scripts.rvdata2 - 2024-01-15_12.30.45.bak'')) True]\<rparr>)"
    by (simp add: copyFileSync_def ex_backup_world_def ex_bundle_path_def ex_backups_def
          join_def js_def del: ex_dump.simps)
  show ?thesis
    by (simp add: createBackUp_steps a b backUpPath_def ex_backUpName c)
qed

lemma ex_backup_run:
  "createScriptLoaderBundle ex_env ex_backup_world ex_bundle_path ex_backups (js ''Scripts'') =
     (Inr LOADER_BUNDLE_CREATED, ex_backup_made_world)"
proof -
  have w: "writeFileSync
      \<lparr>tree = Dir
        [(js ''Data'', Dir [(js ''Scripts.rvdata2'', File (ex_dump ex_bundle))]),
         (js ''Backups'',
          Dir [(js ''Scripts.rvdata2 - 2024-01-15_12.30.45.bak'', File (ex_dump ex_bundle))])],
       trace = [CopyFile ex_bundle_path
                 (join ex_backups (js ''Scripts.rvdata2 - 2024-01-15_12.30.45.bak'')) True]\<rparr>
      ex_bundle_path (encodeBundle ex_env [loaderEntry ex_env (js ''Scripts'')]) =
      (Inr (), ex_backup_made_world)"
    by (simp add: writeFileSync_def ex_backup_made_world_def ex_bundle_path_def js_def
          del: ex_dump.simps)
  show ?thesis
    by (simp add: createScriptLoaderBundle_steps ex_backup_copy w)
qed

lemma ex_backUpName_pattern:
  "isBackUpName (js ''Scripts.rvdata2'') (js ''Scripts.rvdata2 - 2024-01-15_12.30.45.bak'')"
  by (simp add: isBackUpName_def Let_def js_def isDigit_def)

text \<open>
  Claim C3 fails when the backup folder already holds a file with the name of the
  backup, a backup of the same file made in the same second. \<^verbatim>\<open>createBackUp\<close> calls
  \<^verbatim>\<open>copyFileSync\<close> without \<^verbatim>\<open>COPYFILE_EXCL\<close>, which overwrites the file: the run succeeds,
  the backup folder has the same single entry as before and no new file, and the older
  backup is lost, replaced by the copy of the bundle file.
\<close>

theorem createScriptLoaderBundle_overwrites_backup:
  "createScriptLoaderBundle ex_env ex_backup_world ex_bundle_path ex_backups (js ''Scripts'') =
     (Inr LOADER_BUNDLE_CREATED, ex_backup_made_world)
   \<and> dirEntries ex_backup_world ex_backups = [js ''Scripts.rvdata2 - 2024-01-15_12.30.45.bak'']
   \<and> dirEntries ex_backup_made_world ex_backups =
       [js ''Scripts.rvdata2 - 2024-01-15_12.30.45.bak'']
   \<and> isBackUpName (js ''Scripts.rvdata2'') (js ''Scripts.rvdata2 - 2024-01-15_12.30.45.bak'')
   \<and> readFileSync ex_backup_world
         (join ex_backups (js ''Scripts.rvdata2 - 2024-01-15_12.30.45.bak'')) =
       Inr ''an older backup''
   \<and> readFileSync ex_backup_made_world
         (join ex_backups (js ''Scripts.rvdata2 - 2024-01-15_12.30.45.bak'')) =
       readFileSync ex_backup_world ex_bundle_path
   \<and> readFileSync ex_backup_world ex_bundle_path \<noteq> Inr ''an older backup''"
proof -
  have a: "dirEntries ex_backup_world ex_backups =
      [js ''Scripts.rvdata2 - 2024-01-15_12.30.45.bak'']"
    by (simp add: dirEntries_def ex_backup_world_def ex_backups_def js_def)
  have b: "dirEntries ex_backup_made_world ex_backups =
      [js ''Scripts.rvdata2 - 2024-01-15_12.30.45.bak'']"
    by (simp add: dirEntries_def ex_backup_made_world_def ex_backups_def js_def)
  have c: "readFileSync ex_backup_world
         (join ex_backups (js ''Scripts.rvdata2 - 2024-01-15_12.30.45.bak'')) =
       Inr ''an older backup''"
    by (simp add: readFileSync_def ex_backup_world_def ex_backups_def join_def js_def)
  have d: "readFileSync ex_backup_world ex_bundle_path = Inr (ex_dump ex_bundle)"
    by (simp add: readFileSync_def ex_backup_world_def ex_bundle_path_def js_def
          del: ex_dump.simps)
  have e: "readFileSync ex_backup_made_world
         (join ex_backups (js ''Scripts.rvdata2 - 2024-01-15_12.30.45.bak'')) =
       Inr (ex_dump ex_bundle)"
    by (simp add: readFileSync_def ex_backup_made_world_def ex_backups_def join_def js_def
          del: ex_dump.simps)
  have f: "ex_dump ex_bundle \<noteq> ''an older backup''"
    by (simp add: ex_bundle_def)
  from ex_backup_run ex_backUpName_pattern a b c d e f show ?thesis by simp
qed

section \<open>The extraction loop\<close>

lemma put_file_kept:
  assumes "put t q b = Inr t'" and "lookup t p = Some (File c)" and "p \<noteq> q"
  shows "lookup t' p = Some (File c)"
  using put_keeps [OF assms] by simp

lemma extractLoop_trace:
  "extractLoop env scriptFolder i bnd w = (Inr u, w') \<Longrightarrow>
   trace w' = trace w @ map (\<lambda>p. WriteFile p True) (extractTargets scriptFolder i bnd)"
proof (induction bnd arbitrary: i w)
  case Nil
  then show ?case by simp
next
  case (Cons script bnd)
  show ?case
  proof (cases "isLoaderScript (fst script)")
    case True
    with Cons.prems have "extractLoop env scriptFolder (Suc i) bnd w = (Inr u, w')"
      by (simp add: Let_def)
    from Cons.IH [OF this] True show ?thesis by simp
  next
    case False
    let ?p = "join scriptFolder (formatScriptName (fst (snd script)) i)"
    let ?b = "utf8_encode env (processScriptCode (snd (snd script)))"
    obtain r1 w1 where wr: "writeFileSync w ?p ?b = (r1, w1)" by (cases "writeFileSync w ?p ?b")
    from Cons.prems False wr obtain u1 where r1: "r1 = Inr u1"
      by (cases r1) (simp_all add: Let_def)
    from Cons.prems False wr r1 have rest: "extractLoop env scriptFolder (Suc i) bnd w1 = (Inr u, w')"
      by (simp add: Let_def)
    from wr r1 have "writeFileSync w ?p ?b = (Inr u1, w1)" by simp
    from writeFileSync_Inr [OF this] have "trace w1 = trace w @ [WriteFile ?p True]" by simp
    with Cons.IH [OF rest] False show ?thesis by simp
  qed
qed

lemma extractLoop_keeps:
  "extractLoop env scriptFolder i bnd w = (Inr u, w') \<Longrightarrow>
   lookup (tree w) p = Some (File c) \<Longrightarrow> p \<notin> set (extractTargets scriptFolder i bnd) \<Longrightarrow>
   lookup (tree w') p = Some (File c)"
proof (induction bnd arbitrary: i w)
  case Nil
  then show ?case by simp
next
  case (Cons script bnd)
  show ?case
  proof (cases "isLoaderScript (fst script)")
    case True
    with Cons.prems(1) have rest: "extractLoop env scriptFolder (Suc i) bnd w = (Inr u, w')"
      by (simp add: Let_def)
    from Cons.prems(3) True have "p \<notin> set (extractTargets scriptFolder (Suc i) bnd)" by simp
    from Cons.IH [OF rest Cons.prems(2) this] show ?thesis .
  next
    case False
    let ?p = "join scriptFolder (formatScriptName (fst (snd script)) i)"
    let ?b = "utf8_encode env (processScriptCode (snd (snd script)))"
    obtain r1 w1 where wr: "writeFileSync w ?p ?b = (r1, w1)" by (cases "writeFileSync w ?p ?b")
    from Cons.prems(1) False wr obtain u1 where r1: "r1 = Inr u1"
      by (cases r1) (simp_all add: Let_def)
    from Cons.prems(1) False wr r1 have rest: "extractLoop env scriptFolder (Suc i) bnd w1 = (Inr u, w')"
      by (simp add: Let_def)
    from wr r1 have "writeFileSync w ?p ?b = (Inr u1, w1)" by simp
    from writeFileSync_Inr [OF this] have pt: "put (tree w) ?p ?b = Inr (tree w1)" by simp
    from Cons.prems(3) False have ne: "p \<noteq> ?p" and out: "p \<notin> set (extractTargets scriptFolder (Suc i) bnd)"
      by simp_all
    from put_file_kept [OF pt Cons.prems(2) ne] have "lookup (tree w1) p = Some (File c)" .
    from Cons.IH [OF rest this out] show ?thesis .
  qed
qed

lemma extractLoop_files:
  "extractLoop env scriptFolder i bnd w = (Inr u, w') \<Longrightarrow>
   distinct (extractTargets scriptFolder i bnd) \<Longrightarrow>
   list_all (\<lambda>f. lookup (tree w') (fst f) = Some (File (snd f)))
     (extractedFiles env scriptFolder i bnd)"
proof (induction bnd arbitrary: i w)
  case Nil
  then show ?case by simp
next
  case (Cons script bnd)
  show ?case
  proof (cases "isLoaderScript (fst script)")
    case True
    with Cons.prems(1) have rest: "extractLoop env scriptFolder (Suc i) bnd w = (Inr u, w')"
      by (simp add: Let_def)
    from Cons.prems(2) True have "distinct (extractTargets scriptFolder (Suc i) bnd)" by simp
    from Cons.IH [OF rest this] True show ?thesis by simp
  next
    case False
    let ?p = "join scriptFolder (formatScriptName (fst (snd script)) i)"
    let ?b = "utf8_encode env (processScriptCode (snd (snd script)))"
    obtain r1 w1 where wr: "writeFileSync w ?p ?b = (r1, w1)" by (cases "writeFileSync w ?p ?b")
    from Cons.prems(1) False wr obtain u1 where r1: "r1 = Inr u1"
      by (cases r1) (simp_all add: Let_def)
    from Cons.prems(1) False wr r1 have rest: "extractLoop env scriptFolder (Suc i) bnd w1 = (Inr u, w')"
      by (simp add: Let_def)
    from wr r1 have "writeFileSync w ?p ?b = (Inr u1, w1)" by simp
    from writeFileSync_Inr [OF this] have pt: "put (tree w) ?p ?b = Inr (tree w1)" by simp
    from put_lookup [OF pt] have here: "lookup (tree w1) ?p = Some (File ?b)" .
    from Cons.prems(2) False have out: "?p \<notin> set (extractTargets scriptFolder (Suc i) bnd)"
      and d: "distinct (extractTargets scriptFolder (Suc i) bnd)"
      by simp_all
    from extractLoop_keeps [OF rest here out] have "lookup (tree w') ?p = Some (File ?b)" .
    with Cons.IH [OF rest d] False show ?thesis by simp
  qed
qed

lemma extractTargets_indices:
  "map (\<lambda>p. indexPrefix (basename p)) (extractTargets scriptFolder i bnd) =
     map fst (filter (\<lambda>js. \<not> isLoaderScript (fst (snd js))) (zip [i..<i + length bnd] bnd))"
proof (induction bnd arbitrary: i)
  case Nil
  then show ?case by simp
next
  case (Cons script bnd)
  have u: "[i..<i + length (script # bnd)] = i # [Suc i..<Suc i + length bnd]"
    by (subst upt_rec) simp
  show ?case
    unfolding u using Cons.IH [of "Suc i"]
    by (simp add: basename_def join_def indexPrefix_formatScriptName)
qed

lemma extractTargets_distinct: "distinct (extractTargets scriptFolder i bnd)"
proof -
  have "distinct (map fst (zip [i..<i + length bnd] bnd))"
    by (simp add: map_fst_zip_take)
  then have "distinct (map fst (filter (\<lambda>js. \<not> isLoaderScript (fst (snd js)))
      (zip [i..<i + length bnd] bnd)))"
    by (simp add: distinct_map_filter)
  then have "distinct (map (\<lambda>p. indexPrefix (basename p)) (extractTargets scriptFolder i bnd))"
    by (simp add: extractTargets_indices)
  then show ?thesis by (simp add: distinct_map)
qed



lemma writtenFiles_writes: "writtenFiles (map (\<lambda>p. WriteFile p True) ps) = ps"
  by (induction ps) simp_all

lemma writtenFiles_append: "writtenFiles (a @ b) = writtenFiles a @ writtenFiles b"
  by (induction a rule: writtenFiles.induct) simp_all

lemma extractTargets_loaders:
  "list_all (\<lambda>script. isLoaderScript (fst script)) bnd \<Longrightarrow>
   extractTargets scriptFolder i bnd = [] \<and> extractedFiles env scriptFolder i bnd = []"
  by (induction bnd arbitrary: i) simp_all

lemma createScriptFolder_ensureFolder: "createScriptFolder w d = ensureFolder w d"
  by (simp add: createScriptFolder_def ensureFolder_def)

lemma extractScripts_Inr:
  assumes rb: "readBundleFile env w bundleFile = Inr bnd"
    and run: "extractScripts env w bundleFile scriptFolder = (Inr r, w')"
  shows "(checkValidExtraction bnd \<and> r = SCRIPTS_EXTRACTED \<and>
          (\<exists>u w1. ensureFolder w scriptFolder = (Inr u, w1) \<and>
             extractLoop env scriptFolder 0 bnd w1 = (Inr (), w')))
       \<or> (\<not> checkValidExtraction bnd \<and> r = SCRIPTS_NOT_EXTRACTED \<and> w' = w)"
proof (cases "checkValidExtraction bnd")
  case False
  with rb run show ?thesis by (simp add: extractScripts_def)
next
  case True
  obtain r1 w1 where e: "ensureFolder w scriptFolder = (r1, w1)"
    by (cases "ensureFolder w scriptFolder")
  from rb run True e obtain u where r1: "r1 = Inr u"
    by (cases r1) (simp_all add: extractScripts_def createScriptFolder_ensureFolder)
  obtain r2 w2 where l: "extractLoop env scriptFolder 0 bnd w1 = (r2, w2)"
    by (cases "extractLoop env scriptFolder 0 bnd w1")
  from rb run True e r1 l obtain u2 where r2: "r2 = Inr u2"
    by (cases r2) (simp_all add: extractScripts_def createScriptFolder_ensureFolder)
  from rb run True e r1 l r2 have "r = SCRIPTS_EXTRACTED" "w' = w2"
    by (simp_all add: extractScripts_def createScriptFolder_ensureFolder)
  with True e r1 l r2 show ?thesis by simp
qed

lemma extractScripts_written:
  assumes rb: "readBundleFile env w bundleFile = Inr bnd"
    and nums: "list_all (\<lambda>script. isNumber (fst script)) bnd"
    and run: "extractScripts env w bundleFile scriptFolder = (Inr r, w')"
  shows "writtenFiles (newEvents w w') = extractTargets scriptFolder 0 bnd
     \<and> list_all (\<lambda>f. readFileSync w' (fst f) = Inr (snd f))
         (extractedFiles env scriptFolder 0 bnd)
     \<and> (list_all (\<lambda>script. isLoaderScript (fst script)) bnd \<longrightarrow>
          r = SCRIPTS_NOT_EXTRACTED \<and> w' = w)
     \<and> (\<not> list_all (\<lambda>script. isLoaderScript (fst script)) bnd \<longrightarrow> r = SCRIPTS_EXTRACTED)"
proof -
  have valid: "checkValidExtraction bnd = (\<not> list_all (\<lambda>script. isLoaderScript (fst script)) bnd)"
    using checkValidExtraction_numbers [OF nums] by (simp add: list_all_iff)
  from extractScripts_Inr [OF rb run] show ?thesis
  proof
    assume a: "checkValidExtraction bnd \<and> r = SCRIPTS_EXTRACTED \<and>
          (\<exists>u w1. ensureFolder w scriptFolder = (Inr u, w1) \<and>
             extractLoop env scriptFolder 0 bnd w1 = (Inr (), w'))"
    then obtain u w1 where e: "ensureFolder w scriptFolder = (Inr u, w1)"
      and l: "extractLoop env scriptFolder 0 bnd w1 = (Inr (), w')"
      by blast
    from ensureFolder_trace [OF e] extractLoop_trace [OF l]
    have "newEvents w w' = map (\<lambda>p. WriteFile p True) (extractTargets scriptFolder 0 bnd)
        \<or> newEvents w w' = Mkdir scriptFolder True #
             map (\<lambda>p. WriteFile p True) (extractTargets scriptFolder 0 bnd)"
      by (auto simp: newEvents_def)
    then have w: "writtenFiles (newEvents w w') = extractTargets scriptFolder 0 bnd"
      by (auto simp: writtenFiles_writes)
    from extractLoop_files [OF l extractTargets_distinct]
    have "list_all (\<lambda>f. readFileSync w' (fst f) = Inr (snd f))
         (extractedFiles env scriptFolder 0 bnd)"
      by (simp add: list_all_iff readFileSync_def)
    with w a valid show ?thesis by simp
  next
    assume a: "\<not> checkValidExtraction bnd \<and> r = SCRIPTS_NOT_EXTRACTED \<and> w' = w"
    with valid have all: "list_all (\<lambda>script. isLoaderScript (fst script)) bnd" by simp
    from extractTargets_loaders [OF all] a all show ?thesis by (simp add: newEvents_def)
  qed
qed



text \<open>
  The extraction of the example project, whose bundle has the loader at index 1, and the
  extraction of the project whose bundle holds the loader only.
\<close>

lemma ex_format_main: "formatScriptName (js ''Main'') 0 = js ''0000 - Main.rb''"
proof -
  have t: "toString 0 = js ''0''" by (simp add: toString.simps js_def)
  have p: "padStart 4 48 (js ''0'') = js ''0000''" by (simp add: padStart_def js_def numeral_eq_Suc)
  show ?thesis
    by (simp add: formatScriptName_def Let_def t p)
       (simp add: js_def INVALID_CHARACTERS_def trim_def isWhiteSpace_def startsWith_def)
qed

lemma ex_format_util: "formatScriptName (js ''Util'') (Suc (Suc 0)) = js ''0002 - Util.rb''"
proof -
  have t: "toString (Suc (Suc 0)) = js ''2''" by (simp add: toString.simps js_def)
  have p: "padStart 4 48 (js ''2'') = js ''0002''" by (simp add: padStart_def js_def numeral_eq_Suc)
  show ?thesis
    by (simp add: formatScriptName_def Let_def t p)
       (simp add: js_def INVALID_CHARACTERS_def trim_def isWhiteSpace_def startsWith_def)
qed

lemma ex_process_1:
  "processScriptCode (js ''puts 1'') = js ''# encoding: utf-8'' @ [10] @ js ''puts 1''"
  by (simp add: processScriptCode_def js_def startsWith_def)

lemma ex_process_2:
  "processScriptCode (js ''puts 2'') = js ''# encoding: utf-8'' @ [10] @ js ''puts 2''"
  by (simp add: processScriptCode_def js_def startsWith_def)

lemma extractLoop_loader:
  "isLoaderScript (fst script) \<Longrightarrow>
   extractLoop env scriptFolder i (script # bnd) w = extractLoop env scriptFolder (Suc i) bnd w"
  by (simp add: Let_def)

lemma extractLoop_write:
  "\<not> isLoaderScript (fst script) \<Longrightarrow>
   writeFileSync w (join scriptFolder (formatScriptName (fst (snd script)) i))
     (utf8_encode env (processScriptCode (snd (snd script)))) = (Inr (), w1) \<Longrightarrow>
   extractLoop env scriptFolder i (script # bnd) w = extractLoop env scriptFolder (Suc i) bnd w1"
  by (simp add: Let_def)

lemma ex_extract_loop:
  "extractLoop ex_env ex_scripts_folder 0
     [(JNum 7, js ''Main'', js ''puts 1''),
      (JNum LOADER_SCRIPT_SECTION, LOADER_SCRIPT_NAME, js ''run''),
      (JNum 9, js ''Util'', js ''puts 2'')]
     \<lparr>tree = Dir
        [(js ''Data'', Dir [(js ''Scripts.rvdata2'', File (ex_dump ex_bundle))]),
         (js ''Scripts'', Dir [])],
      trace = [Mkdir ex_scripts_folder True]\<rparr> = (Inr (), ex_extracted_world)"
proof -
  let ?w0 = "\<lparr>tree = Dir
        [(js ''Data'', Dir [(js ''Scripts.rvdata2'', File (ex_dump ex_bundle))]),
         (js ''Scripts'', Dir [])],
      trace = [Mkdir ex_scripts_folder True]\<rparr>"
  let ?w1 = "\<lparr>tree = Dir
        [(js ''Data'', Dir [(js ''Scripts.rvdata2'', File (ex_dump ex_bundle))]),
         (js ''Scripts'',
          Dir [(js ''0000 - Main.rb'',
                File (map char_of (js ''# encoding: utf-8'' @ [10] @ js ''puts 1'')))])],
      trace = [Mkdir ex_scripts_folder True,
               WriteFile [js ''Scripts'', js ''0000 - Main.rb''] True]\<rparr>"
  have n7: "\<not> isLoaderScript (fst (JNum 7, js ''Main'', js ''puts 1''))"
    by (simp add: isLoaderScript_def LOADER_SCRIPT_SECTION_def)
  have n9: "\<not> isLoaderScript (fst (JNum 9, js ''Util'', js ''puts 2''))"
    by (simp add: isLoaderScript_def LOADER_SCRIPT_SECTION_def)
  have l: "isLoaderScript (fst (JNum LOADER_SCRIPT_SECTION, LOADER_SCRIPT_NAME, js ''run''))"
    by (simp add: isLoaderScript_def)
  have w1: "writeFileSync ?w0
      (join ex_scripts_folder (formatScriptName (fst (snd (JNum 7, js ''Main'', js ''puts 1''))) 0))
      (utf8_encode ex_env (processScriptCode (snd (snd (JNum 7, js ''Main'', js ''puts 1''))))) =
      (Inr (), ?w1)"
    by (simp add: ex_format_main ex_process_1)
       (simp add: writeFileSync_def ex_scripts_folder_def join_def ex_env_def js_def
          del: ex_dump.simps)
  have w2: "writeFileSync ?w1
      (join ex_scripts_folder
         (formatScriptName (fst (snd (JNum 9, js ''Util'', js ''puts 2''))) (Suc (Suc 0))))
      (utf8_encode ex_env (processScriptCode (snd (snd (JNum 9, js ''Util'', js ''puts 2''))))) =
      (Inr (), ex_extracted_world)"
    by (simp add: ex_format_util ex_process_2)
       (simp add: writeFileSync_def ex_scripts_folder_def join_def ex_env_def js_def
          ex_extracted_world_def del: ex_dump.simps)
  show ?thesis
    by (simp only: extractLoop_write [OF n7 w1] extractLoop_loader [OF l]
          extractLoop_write [OF n9 w2] extractLoop.simps(1))
qed

lemma ex_extract_run:
  "extractScripts ex_env ex_world ex_bundle_path ex_scripts_folder =
     (Inr SCRIPTS_EXTRACTED, ex_extracted_world)"
proof -
  have v: "checkValidExtraction
     [(JNum 7, js ''Main'', js ''puts 1''),
      (JNum LOADER_SCRIPT_SECTION, LOADER_SCRIPT_NAME, js ''run''),
      (JNum 9, js ''Util'', js ''puts 2'')]"
    by (simp add: checkValidExtraction_def isLoaderScript_def LOADER_SCRIPT_SECTION_def)
  have f: "createScriptFolder ex_world ex_scripts_folder =
     (Inr (), \<lparr>tree = Dir
        [(js ''Data'', Dir [(js ''Scripts.rvdata2'', File (ex_dump ex_bundle))]),
         (js ''Scripts'', Dir [])],
      trace = [Mkdir ex_scripts_folder True]\<rparr>)"
    by (simp add: createScriptFolder_def existsSync_def mkdirSync_def ex_world_def
          ex_scripts_folder_def js_def del: ex_dump.simps)
  show ?thesis
    unfolding extractScripts_def
    by (simp add: ex_read_bundle v f ex_extract_loop del: extractLoop.simps)
qed



section \<open>The indices of the extracted files\<close>

lemma extractTargets_positions:
  "extractTargets scriptFolder i bnd =
     map (\<lambda>j. join scriptFolder (formatScriptName (fst (snd (bnd ! (j - i)))) j))
       (filter (\<lambda>j. \<not> isLoaderScript (fst (bnd ! (j - i)))) [i..<i + length bnd])"
proof (induction bnd arbitrary: i)
  case Nil
  then show ?case by simp
next
  case (Cons script bnd)
  have u: "[i..<i + length (script # bnd)] = i # [Suc i..<Suc (i + length bnd)]"
    by (subst upt_rec) simp
  have nth: "(script # bnd) ! (j - i) = bnd ! (j - Suc i)" if "i < j" for j
  proof -
    from that have "j - i = Suc (j - Suc i)" by simp
    then show ?thesis by simp
  qed
  have f: "filter (\<lambda>j. \<not> isLoaderScript (fst ((script # bnd) ! (j - i)))) [Suc i..<Suc (i + length bnd)]
      = filter (\<lambda>j. \<not> isLoaderScript (fst (bnd ! (j - Suc i)))) [Suc i..<Suc (i + length bnd)]"
  proof (rule filter_cong)
    show "[Suc i..<Suc (i + length bnd)] = [Suc i..<Suc (i + length bnd)]" ..
  next
    fix j assume "j \<in> set [Suc i..<Suc (i + length bnd)]"
    then have "Suc i \<le> j" unfolding set_upt atLeastLessThan_iff by (rule conjunct1)
    then have "i < j" by simp
    from nth [OF this]
    show "(\<not> isLoaderScript (fst ((script # bnd) ! (j - i)))) =
          (\<not> isLoaderScript (fst (bnd ! (j - Suc i))))" by simp
  qed
  have m: "map (\<lambda>j. join scriptFolder (formatScriptName (fst (snd ((script # bnd) ! (j - i)))) j))
        (filter (\<lambda>j. \<not> isLoaderScript (fst (bnd ! (j - Suc i)))) [Suc i..<Suc (i + length bnd)])
      = map (\<lambda>j. join scriptFolder (formatScriptName (fst (snd (bnd ! (j - Suc i)))) j))
        (filter (\<lambda>j. \<not> isLoaderScript (fst (bnd ! (j - Suc i)))) [Suc i..<Suc (i + length bnd)])"
  proof (rule map_cong)
    show "filter (\<lambda>j. \<not> isLoaderScript (fst (bnd ! (j - Suc i)))) [Suc i..<Suc (i + length bnd)] =
      filter (\<lambda>j. \<not> isLoaderScript (fst (bnd ! (j - Suc i)))) [Suc i..<Suc (i + length bnd)]" ..
  next
    fix j assume "j \<in> set (filter (\<lambda>j. \<not> isLoaderScript (fst (bnd ! (j - Suc i))))
      [Suc i..<Suc (i + length bnd)])"
    with filter_is_subset have "j \<in> set [Suc i..<Suc (i + length bnd)]" by (rule subsetD)
    then have "Suc i \<le> j" unfolding set_upt atLeastLessThan_iff by (rule conjunct1)
    then have "i < j" by simp
    from nth [OF this]
    show "join scriptFolder (formatScriptName (fst (snd ((script # bnd) ! (j - i)))) j) =
          join scriptFolder (formatScriptName (fst (snd (bnd ! (j - Suc i)))) j)" by simp
  qed
  show ?case
    unfolding u using Cons.IH [of "Suc i"] by (simp add: f m del: upt_Suc)
qed

lemma length_filter_neq:
  "distinct xs \<Longrightarrow> k \<in> set xs \<Longrightarrow> length (filter (\<lambda>j. j \<noteq> k) xs) = length xs - 1"
proof (induction xs)
  case Nil
  then show ?case by simp
next
  case (Cons x xs)
  show ?case
  proof (cases "x = k")
    case True
    with Cons.prems have "k \<notin> set xs" by simp
    then have "filter (\<lambda>j. j \<noteq> k) xs = xs" by (auto simp: filter_id_conv)
    with True show ?thesis by simp
  next
    case False
    with Cons have "length (filter (\<lambda>j. j \<noteq> k) xs) = length xs - 1" "k \<in> set xs" by simp_all
    moreover from \<open>k \<in> set xs\<close> have "0 < length xs" by (cases xs) simp_all
    ultimately show ?thesis using False by simp
  qed
qed

text \<open>
  Claim C10. Let the bundle file decode to a bundle of \<open>M\<close> scripts with numbers as
  sections, whose loader entry is at position \<open>k\<close> and nowhere else, and let
  \<^verbatim>\<open>extractScripts\<close> succeed. Then the files written are, in order, the files named
  \<^verbatim>\<open>formatScriptName\<close> of the name and the position \<open>j\<close> of each script in the whole
  bundle, for the positions \<open>j\<close> other than \<open>k\<close>: their numeric prefixes are
  \<open>0, ..., M - 1\<close> without \<open>k\<close>, with a gap at the loader's position, and there are
  \<open>M - 1\<close> of them.
\<close>

theorem extractScripts_indices:
  assumes rb: "readBundleFile env w bundleFile = Inr bnd"
    and nums: "list_all (\<lambda>script. isNumber (fst script)) bnd"
    and run: "extractScripts env w bundleFile scriptFolder = (Inr r, w')"
    and k: "k < length bnd"
    and loader: "isLoaderScript (fst (bnd ! k))"
    and others: "\<forall>j. j < length bnd \<and> j \<noteq> k \<longrightarrow> \<not> isLoaderScript (fst (bnd ! j))"
  shows "writtenFiles (newEvents w w') =
           map (\<lambda>j. join scriptFolder (formatScriptName (fst (snd (bnd ! j))) j))
             (filter (\<lambda>j. j \<noteq> k) [0..<length bnd])
     \<and> map (\<lambda>p. indexPrefix (basename p)) (writtenFiles (newEvents w w')) =
           filter (\<lambda>j. j \<noteq> k) [0..<length bnd]
     \<and> length (writtenFiles (newEvents w w')) = length bnd - 1"
proof -
  from extractScripts_written [OF rb nums run]
  have w: "writtenFiles (newEvents w w') = extractTargets scriptFolder 0 bnd" by simp
  have f: "filter (\<lambda>j. \<not> isLoaderScript (fst (bnd ! j))) [0..<length bnd] =
      filter (\<lambda>j. j \<noteq> k) [0..<length bnd]"
    using loader others by (intro filter_cong) auto
  have a: "writtenFiles (newEvents w w') =
           map (\<lambda>j. join scriptFolder (formatScriptName (fst (snd (bnd ! j))) j))
             (filter (\<lambda>j. j \<noteq> k) [0..<length bnd])"
    using extractTargets_positions [of scriptFolder 0 bnd] by (simp add: w f)
  have b: "map (\<lambda>p. indexPrefix (basename p)) (writtenFiles (newEvents w w')) =
           filter (\<lambda>j. j \<noteq> k) [0..<length bnd]"
    unfolding a by (simp add: comp_def basename_def join_def indexPrefix_formatScriptName)
  have "length (filter (\<lambda>j. j \<noteq> k) [0..<length bnd]) = length [0..<length bnd] - 1"
    using k by (intro length_filter_neq) simp_all
  then have c: "length (writtenFiles (newEvents w w')) = length bnd - 1"
    unfolding a by simp
  from a b c show ?thesis by simp
qed

text \<open>The example project: three scripts, the loader at position 1, files 0 and 2.\<close>

theorem extractScripts_indices_witness:
  "writtenFiles (newEvents ex_world ex_extracted_world) =
     [join ex_scripts_folder (formatScriptName (js ''Main'') 0),
      join ex_scripts_folder (formatScriptName (js ''Util'') 2)]
   \<and> map (\<lambda>p. indexPrefix (basename p)) (writtenFiles (newEvents ex_world ex_extracted_world)) =
       [0, 2]
   \<and> length (writtenFiles (newEvents ex_world ex_extracted_world)) = 2"
proof -
  let ?b = "[(JNum 7, js ''Main'', js ''puts 1''),
      (JNum LOADER_SCRIPT_SECTION, LOADER_SCRIPT_NAME, js ''run''),
      (JNum 9, js ''Util'', js ''puts 2'')]"
  have nums: "list_all (\<lambda>script. isNumber (fst script)) ?b" by simp
  have k: "Suc 0 < length ?b" by simp
  have loader: "isLoaderScript (fst (?b ! Suc 0))" by (simp add: isLoaderScript_def)
  have others: "\<forall>j. j < length ?b \<and> j \<noteq> Suc 0 \<longrightarrow> \<not> isLoaderScript (fst (?b ! j))"
    by (auto simp: isLoaderScript_def LOADER_SCRIPT_SECTION_def less_Suc_eq numeral_3_eq_3)
  have f: "filter (\<lambda>j. j \<noteq> Suc 0) [0..<length ?b] = [0, 2]"
    by (simp add: upt_rec numeral_2_eq_2)
  from extractScripts_indices [OF ex_read_bundle nums ex_extract_run k loader others]
  show ?thesis unfolding f
    by (simp add: numeral_2_eq_2 basename_def join_def indexPrefix_formatScriptName)
qed

section \<open>Formatting and deformatting names\<close>

text \<open>
  For every name and index the formatted name has no invalid character, starts with the
  index padded to four digits and \<^verbatim>\<open> - \<close> (\<open>formatScriptName_shape\<close>), and contains
  \<^verbatim>\<open>.rb\<close> somewhere.
\<close>

lemma trim_subset: "set (trim s) \<subseteq> set s"
proof -
  have "set (trim s) \<subseteq> set (rev (dropWhile isWhiteSpace s))"
    unfolding trim_def using set_dropWhileD by fastforce
  also have "\<dots> \<subseteq> set s" using set_dropWhileD by fastforce
  finally show ?thesis .
qed

lemma digit_valid: "isDigit c \<Longrightarrow> \<not> INVALID_CHARACTERS c"
  unfolding isDigit_def INVALID_CHARACTERS_def by arith

lemma formatScriptName_valid:
  "list_all (\<lambda>c. \<not> INVALID_CHARACTERS c) (formatScriptName name i)"
proof -
  have d: "list_all (\<lambda>c. \<not> INVALID_CHARACTERS c) (padStart 4 48 (toString i))"
    using padStart_digits [of i] digit_valid unfolding list_all_iff by blast
  have "\<forall>c \<in> set (filter (\<lambda>c. \<not> INVALID_CHARACTERS c) name). \<not> INVALID_CHARACTERS c"
    by simp
  with trim_subset [of "filter (\<lambda>c. \<not> INVALID_CHARACTERS c) name"]
  have n: "list_all (\<lambda>c. \<not> INVALID_CHARACTERS c)
      (trim (filter (\<lambda>c. \<not> INVALID_CHARACTERS c) name))"
    unfolding list_all_iff by blast
  have s: "list_all (\<lambda>c. \<not> INVALID_CHARACTERS c) (js '' - '')"
    by (simp add: js_def INVALID_CHARACTERS_def)
  have e: "list_all (\<lambda>c. \<not> INVALID_CHARACTERS c) (js ''.rb'')"
    by (simp add: js_def INVALID_CHARACTERS_def)
  from d n s e show ?thesis
    by (simp add: formatScriptName_def Let_def)
qed

lemma formatScriptName_includes_rb:
  "str_includes (formatScriptName name i) (js ''.rb'') \<or>
   endsWith (formatScriptName name i) (js ''.rb'')"
  by (auto simp: formatScriptName_def Let_def endsWith_def)

text \<open>
  Claim C7 fails on its last part. The extension is appended only when the name does
  not contain \<^verbatim>\<open>.rb\<close> anywhere (\<^verbatim>\<open>includes\<close>), so a name that contains \<^verbatim>\<open>.rb\<close> before
  its end is left without the extension: the script \<^verbatim>\<open>a.rbx\<close> at index 12 gets the
  file name \<^verbatim>\<open>0012 - a.rbx\<close>, which does not end with \<^verbatim>\<open>.rb\<close>.
\<close>

theorem formatScriptName_inner_rb:
  "formatScriptName (js ''a.rbx'') 12 = js ''0012 - a.rbx''
   \<and> \<not> endsWith (formatScriptName (js ''a.rbx'') 12) (js ''.rb'')"
proof -
  have t: "toString 12 = js ''12''" by (simp add: toString.simps js_def)
  have p: "padStart 4 48 (js ''12'') = js ''0012''" by (simp add: padStart_def js_def numeral_eq_Suc)
  have f: "formatScriptName (js ''a.rbx'') 12 = js ''0012 - a.rbx''"
    by (simp add: formatScriptName_def Let_def t p)
       (simp add: js_def INVALID_CHARACTERS_def trim_def isWhiteSpace_def startsWith_def)
  have e: "\<not> endsWith (js ''0012 - a.rbx'') (js ''.rb'')"
    by (simp add: endsWith_def js_def)
  from f e show ?thesis by simp
qed

text \<open>
  A file name that the expression does not match (one that does not end with \<^verbatim>\<open>.rb\<close>
  in either case) is returned as it is.
\<close>

lemma deformatScriptName_no_match:
  "regexp_match DEFORMAT_SCRIPT_NAME (basename script) = None \<Longrightarrow>
   deformatScriptName script = basename script"
  by (simp add: deformatScriptName_def)

text \<open>
  Claim C8 fails on its first part. In \<^verbatim>\<open>(?:\d+\s*-.*?)?(.*?)\.rb$\<close> the lazy \<^verbatim>\<open>.*?\<close>
  after the dash matches nothing, so the space that \<^verbatim>\<open>formatScriptName\<close> puts after the
  dash stays in the captured name: deformatting the formatted name of \<^verbatim>\<open>Main\<close> gives
  \<^verbatim>\<open> Main\<close>, with a leading space, and not the trimmed name \<^verbatim>\<open>Main\<close>.
\<close>

theorem deformatScriptName_leading_space:
  "formatScriptName (js ''Main'') 12 = js ''0012 - Main.rb''
   \<and> deformatScriptName [formatScriptName (js ''Main'') 12] = js '' Main''
   \<and> trim (filter (\<lambda>c. \<not> INVALID_CHARACTERS c) (js ''Main'')) = js ''Main''
   \<and> js '' Main'' \<noteq> js ''Main''"
proof -
  have t: "toString 12 = js ''12''" by (simp add: toString.simps js_def)
  have p: "padStart 4 48 (js ''12'') = js ''0012''" by (simp add: padStart_def js_def numeral_eq_Suc)
  have f: "formatScriptName (js ''Main'') 12 = js ''0012 - Main.rb''"
    by (simp add: formatScriptName_def Let_def t p)
       (simp add: js_def INVALID_CHARACTERS_def trim_def isWhiteSpace_def startsWith_def)
  have d: "deformatScriptName [js ''0012 - Main.rb''] = js '' Main''"
    by (simp add: deformatScriptName_def basename_def DEFORMAT_SCRIPT_NAME_def js_def isDigit_def
          isWhiteSpace_def isDot_def)
  have c: "trim (filter (\<lambda>c. \<not> INVALID_CHARACTERS c) (js ''Main'')) = js ''Main''"
    by (simp add: js_def INVALID_CHARACTERS_def trim_def isWhiteSpace_def)
  have n: "js '' Main'' \<noteq> js ''Main''" by (simp add: js_def)
  from f d c n show ?thesis by simp
qed

end
